theory Spec2Isabelle
  imports Main
begin

section \<open>Strings and status values\<close>

text \<open>
  A JavaScript string is modelled as a \<^typ>\<open>string\<close>, the list of the bytes of its UTF-8
  encoding. The source only concatenates strings, compares a length with zero, replaces
  the newline character and searches for ASCII phrases, and none of these depends on the
  encoding. The four glyphs of \<^verbatim>\<open>status.ts\<close> are written as their UTF-8 bytes.
\<close>

definition glyph_waiting :: string where
  \<comment> \<open>U+23F3, the hourglass\<close>
  "glyph_waiting = [CHR 0xE2, CHR 0x8F, CHR 0xB3]"

definition glyph_progress :: string where
  \<comment> \<open>U+26A1, the high voltage sign\<close>
  "glyph_progress = [CHR 0xE2, CHR 0x9A, CHR 0xA1]"

definition glyph_success :: string where
  \<comment> \<open>U+2705, the check mark button\<close>
  "glyph_success = [CHR 0xE2, CHR 0x9C, CHR 0x85]"

definition glyph_failure :: string where
  \<comment> \<open>U+274C, the cross mark\<close>
  "glyph_failure = [CHR 0xE2, CHR 0x9D, CHR 0x8C]"

text \<open>
  \<^verbatim>\<open>status.ts\<close> declares the type \<^verbatim>\<open>Status\<close> with the three variants
  \<^verbatim>\<open>pending\<close>, \<^verbatim>\<open>done\<close> and \<^verbatim>\<open>error\<close>. \<^verbatim>\<open>index.ts\<close> also builds the object
  \<^verbatim>\<open>{ status: 'waiting' }\<close> and hands it to the same callbacks, so the values that
  reach a status callback at run time have a fourth form.
\<close>

datatype StatusValue =
    Pending (lastToken: string)
  | Done (translation: string)
  | Error (message: string)
  | Waiting

text \<open>The values of the declared type \<^verbatim>\<open>Status\<close>.\<close>

fun declared :: "StatusValue \<Rightarrow> bool" where
  "declared (Pending t) = True"
| "declared (Done t) = True"
| "declared (Error m) = True"
| "declared Waiting = False"

text \<open>\<^verbatim>\<open>lastToken.replace(/\n/g, ' ')\<close>: every newline becomes a space.\<close>

definition replace_newlines :: "string \<Rightarrow> string" where
  "replace_newlines s = map (\<lambda>c. if c = CHR 0x0A then CHR '' '' else c) s"

text \<open>
  \<^verbatim>\<open>statusToText\<close> of \<^verbatim>\<open>status.ts\<close>. The \<^verbatim>\<open>switch\<close> has no default branch: for an
  object whose tag is none of the three, control leaves the \<^verbatim>\<open>switch\<close> and the function
  returns \<^verbatim>\<open>undefined\<close>, which is \<^const>\<open>None\<close> here.
\<close>

fun statusToText :: "StatusValue \<Rightarrow> string option" where
  "statusToText (Pending t) =
     (if length t = 0 then Some glyph_waiting
      else Some (glyph_progress @ '' '' @ replace_newlines t))"
| "statusToText (Done t) = Some glyph_success"
| "statusToText (Error m) = Some (glyph_failure @ '' '' @ m)"
| "statusToText Waiting = None"


section \<open>Arrays and the error pattern\<close>

text \<open>
  \<^verbatim>\<open>Array.prototype.join\<close>: the elements are concatenated with the separator between
  them, and an element that is \<^verbatim>\<open>undefined\<close> contributes the empty string.
\<close>

fun js_text :: "string option \<Rightarrow> string" where
  "js_text None = []"
| "js_text (Some s) = s"

fun js_join :: "string \<Rightarrow> string option list \<Rightarrow> string" where
  "js_join sep [] = []"
| "js_join sep [x] = js_text x"
| "js_join sep (x # y # ys) = js_text x @ sep @ js_join sep (y # ys)"

text \<open>
  The test \<^verbatim>\<open>res.message.match(/reduce the length|stream read error/i)\<close>: the message
  contains one of the two phrases, letters compared without regard to case. Without the
  \<^verbatim>\<open>u\<close> flag a character outside ASCII never matches an ASCII letter, so folding the
  letters \<^verbatim>\<open>a\<close> to \<^verbatim>\<open>z\<close> is all the flag \<^verbatim>\<open>i\<close> does here.
\<close>

definition ascii_upper :: "char \<Rightarrow> char" where
  "ascii_upper c =
     (let n = (of_char c :: nat) in if 97 \<le> n \<and> n \<le> 122 then char_of (n - 32) else c)"

fun starts_with_ci :: "string \<Rightarrow> string \<Rightarrow> bool" where
  "starts_with_ci [] s = True"
| "starts_with_ci (p # ps) [] = False"
| "starts_with_ci (p # ps) (c # cs) = (ascii_upper p = ascii_upper c \<and> starts_with_ci ps cs)"

fun contains_ci :: "string \<Rightarrow> string \<Rightarrow> bool" where
  "contains_ci pat [] = starts_with_ci pat []"
| "contains_ci pat (c # cs) = (starts_with_ci pat (c # cs) \<or> contains_ci pat cs)"

definition matches_size_or_stream :: "string \<Rightarrow> bool" where
  "matches_size_or_stream msg \<longleftrightarrow>
     contains_ci ''reduce the length'' msg \<or> contains_ci ''stream read error'' msg"

section \<open>Asynchronous calls as event streams\<close>

text \<open>
  An \<^verbatim>\<open>async\<close> function that reports through a callback is modelled by the list of what it
  does, in the order of time: \<^term>\<open>Emit s\<close> is one call \<^verbatim>\<open>onStatus(s)\<close>, and \<^term>\<open>Settle r\<close>
  is the moment its promise settles, either fulfilled with the value it returns
  (\<^verbatim>\<open>undefined\<close> is \<^const>\<open>None\<close>) or rejected with \<^verbatim>\<open>new Error(message)\<close>.
\<close>

datatype Outcome = Returned "string option" | Thrown string

datatype Event = Emit StatusValue | Settle Outcome

fun emitted :: "Event list \<Rightarrow> StatusValue list" where
  "emitted [] = []"
| "emitted (Emit s # es) = s # emitted es"
| "emitted (Settle r # es) = emitted es"

text \<open>The outcome of a call is the first settlement of its promise: a promise settles once.\<close>

fun outcome :: "Event list \<Rightarrow> Outcome option" where
  "outcome [] = None"
| "outcome (Emit s # es) = outcome es"
| "outcome (Settle r # es) = Some r"

text \<open>
  The calls started by \<^verbatim>\<open>fragments.map\<close> run concurrently on one thread: their events
  reach the parent one at a time, and the order of the events of different children
  depends on when the collaborator answers. A plan lists whose turn it is (the index of a
  child whose next event happens now); once the plan is used up the remaining events
  happen child by child. Every plan delivers every event of every child exactly once and
  keeps the order within a child, and every such order is the result of some plan. The
  orders that can happen at run time are among them (there, each child sends its first
  status before any promise settles).
\<close>

fun interleave :: "nat list \<Rightarrow> 'a list list \<Rightarrow> (nat \<times> 'a) list" where
  "interleave [] qs = concat (map (\<lambda>(i, q). map (Pair i) q) (enumerate 0 qs))"
| "interleave (i # plan) qs =
     (if i < length qs then
        (case qs ! i of
           [] \<Rightarrow> interleave plan qs
         | x # q \<Rightarrow> (i, x) # interleave plan (qs[i := q]))
      else interleave plan qs)"

text \<open>
  The state of one call of \<^verbatim>\<open>translateMultiple\<close>: the array \<^verbatim>\<open>statuses\<close> of its closure,
  and the state of its \<^verbatim>\<open>Promise.all\<close>: the values of the children fulfilled so far, and
  whether the combined promise has settled.
\<close>

datatype Child = Unsettled | Fulfilled "string option"

record Pool =
  statuses :: "StatusValue list"
  results :: "Child list"
  settled :: bool

fun fulfilled_value :: "Child \<Rightarrow> string option" where
  "fulfilled_value Unsettled = None"
| "fulfilled_value (Fulfilled v) = v"

definition all_fulfilled :: "Child list \<Rightarrow> bool" where
  "all_fulfilled rs \<longleftrightarrow> list_all (\<lambda>r. r \<noteq> Unsettled) rs"

text \<open>
  \<^verbatim>\<open>handleNewStatus(index)(status)\<close>, the same in both source files: the slot is
  overwritten and the composite status is sent to \<^verbatim>\<open>onStatus\<close>. The index comes from
  \<^verbatim>\<open>fragments.map\<close> and \<^verbatim>\<open>statuses\<close> has the length of \<^verbatim>\<open>fragments\<close>, so it is in range.
\<close>

definition handleNewStatus :: "nat \<Rightarrow> StatusValue \<Rightarrow> StatusValue list \<Rightarrow> StatusValue list \<times> StatusValue" where
  "handleNewStatus index status sts =
     (let sts' = sts[index := status]
      in (sts', Pending (''['' @ js_join '', '' (map statusToText sts') @ '']'')))"

text \<open>
  What follows \<^verbatim>\<open>await Promise.all(...)\<close> once every child is fulfilled: the results are
  joined in index order, the final status is sent and the joined text is returned.
\<close>

definition finish :: "Child list \<Rightarrow> Event list" where
  "finish rs =
     (let finalResult = js_join [CHR 0x0A, CHR 0x0A] (map fulfilled_value rs)
      in [Emit (Done finalResult), Settle (Returned (Some finalResult))])"

text \<open>
  One event of child \<open>i\<close> reaching the parent. A status goes through
  \<^verbatim>\<open>handleNewStatus(i)\<close>. A rejection rejects \<^verbatim>\<open>Promise.all\<close>, unless it has settled
  already, and \<^verbatim>\<open>translateMultiple\<close> throws at its \<^verbatim>\<open>await\<close>. A fulfilment is recorded,
  and when it is the last one \<^verbatim>\<open>Promise.all\<close> is fulfilled and \<^verbatim>\<open>translateMultiple\<close> goes on.
\<close>

fun step :: "Pool \<Rightarrow> nat \<times> Event \<Rightarrow> Pool \<times> Event list" where
  "step st (i, Emit s) =
     (let (sts', composite) = handleNewStatus i s (statuses st)
      in (st\<lparr>statuses := sts'\<rparr>, [Emit composite]))"
| "step st (i, Settle (Thrown m)) =
     (if settled st then (st, []) else (st\<lparr>settled := True\<rparr>, [Settle (Thrown m)]))"
| "step st (i, Settle (Returned v)) =
     (let rs = (results st)[i := Fulfilled v]
      in if \<not> settled st \<and> all_fulfilled rs
         then (st\<lparr>results := rs, settled := True\<rparr>, finish rs)
         else (st\<lparr>results := rs\<rparr>, []))"

fun drive :: "Pool \<Rightarrow> (nat \<times> Event) list \<Rightarrow> Event list" where
  "drive st [] = []"
| "drive st (x # xs) = (case step st x of (st', out) \<Rightarrow> out @ drive st' xs)"

text \<open>
  The body of \<^verbatim>\<open>translateMultiple\<close> after its first \<^verbatim>\<open>onStatus\<close>, given the initial array
  \<^verbatim>\<open>statuses\<close>, the plan and the event streams of the children. \<^verbatim>\<open>Promise.all([])\<close> is
  fulfilled at once.
\<close>

definition gather :: "StatusValue list \<Rightarrow> nat list \<Rightarrow> Event list list \<Rightarrow> Event list" where
  "gather sts plan children =
     (let st = \<lparr>statuses = sts, results = replicate (length children) Unsettled, settled = False\<rparr>
      in if children = [] then finish [] else drive st (interleave plan children))"

section \<open>The orchestrator of index.ts\<close>

text \<open>
  The collaborator \<^verbatim>\<open>callApi\<close> (\<^verbatim>\<open>api.ts\<close> is not part of the sources) is a parameter: for
  a text, an instruction and the options it gives the statuses it sends to \<^verbatim>\<open>onStatus\<close>
  while it runs and the status value its promise is fulfilled with.
  \<^verbatim>\<open>splitStringAtBlankLines\<close> (\<^verbatim>\<open>md-utils.ts\<close> is not part of the sources) is a parameter too,
  \<^const>\<open>None\<close> being \<^verbatim>\<open>null\<close>. The schedule gives, for the call of \<^verbatim>\<open>translateMultiple\<close> at a
  position in the call tree, the plan that interleaves its children.

  The recursion of the source ends only if the splitter and the collaborator let it, so
  both functions count down a fuel, and \<^const>\<open>None\<close> says that the fuel did not suffice.
  The two \<^verbatim>\<open>console.log\<close> calls of \<^verbatim>\<open>translateOne\<close> write to the standard output only and
  are left out.
\<close>

type_synonym 'o ApiCaller = "string \<Rightarrow> string \<Rightarrow> 'o \<Rightarrow> StatusValue list \<times> StatusValue"
type_synonym Splitter = "string \<Rightarrow> nat \<Rightarrow> string list option"
type_synonym Schedule = "nat list \<Rightarrow> nat list"

fun translateMultiple ::
    "nat \<Rightarrow> Schedule \<Rightarrow> Splitter \<Rightarrow> nat list \<Rightarrow> 'o ApiCaller \<Rightarrow> string list \<Rightarrow> string \<Rightarrow> 'o \<Rightarrow> Event list option"
  and translateOne ::
    "nat \<Rightarrow> Schedule \<Rightarrow> Splitter \<Rightarrow> nat list \<Rightarrow> 'o ApiCaller \<Rightarrow> string \<Rightarrow> string \<Rightarrow> 'o \<Rightarrow> Event list option"
where
  "translateMultiple 0 sched split pos callApi fragments instruction apiOptions = None"
| "translateMultiple (Suc n) sched split pos callApi fragments instruction apiOptions =
     (case those (map (\<lambda>(index, fragment).
                    translateOne n sched split (pos @ [index]) callApi fragment instruction apiOptions)
                  (enumerate 0 fragments)) of
        None \<Rightarrow> None
      | Some children \<Rightarrow>
          Some (Emit (Pending []) # gather (replicate (length fragments) Waiting) (sched pos) children))"
| "translateOne 0 sched split pos callApi text instruction apiOptions = None"
| "translateOne (Suc n) sched split pos callApi text instruction apiOptions =
     (case callApi text instruction apiOptions of (updates, res) \<Rightarrow>
        let started = Emit Waiting # map Emit updates in
        (case res of
           Error msg \<Rightarrow>
             if matches_size_or_stream msg then
               (case split text 0 of
                  None \<Rightarrow> Some (started @ [Settle (Returned (Some text))])
                | Some splitResult \<Rightarrow>
                    map_option ((@) started)
                      (translateMultiple n sched split pos callApi splitResult instruction apiOptions))
             else Some (started @ [Settle (Thrown msg)])
         | Done t \<Rightarrow> Some (started @ [Settle (Returned (Some t))])
         | _ \<Rightarrow> Some (started @ [Settle (Returned None)])))"

section \<open>The orchestrator of the second source file\<close>

text \<open>
  The other source file holds the same two functions with \<^verbatim>\<open>callApi\<close> imported instead of
  passed; its slots start as \<^verbatim>\<open>pending\<close> with an empty token, and that is also the first
  status of \<^verbatim>\<open>translateOne\<close>.
\<close>

fun translateMultiple_p0 ::
    "nat \<Rightarrow> Schedule \<Rightarrow> Splitter \<Rightarrow> nat list \<Rightarrow> 'o ApiCaller \<Rightarrow> string list \<Rightarrow> string \<Rightarrow> 'o \<Rightarrow> Event list option"
  and translateOne_p0 ::
    "nat \<Rightarrow> Schedule \<Rightarrow> Splitter \<Rightarrow> nat list \<Rightarrow> 'o ApiCaller \<Rightarrow> string \<Rightarrow> string \<Rightarrow> 'o \<Rightarrow> Event list option"
where
  "translateMultiple_p0 0 sched split pos callApi fragments instruction apiOptions = None"
| "translateMultiple_p0 (Suc n) sched split pos callApi fragments instruction apiOptions =
     (case those (map (\<lambda>(index, fragment).
                    translateOne_p0 n sched split (pos @ [index]) callApi fragment instruction apiOptions)
                  (enumerate 0 fragments)) of
        None \<Rightarrow> None
      | Some children \<Rightarrow>
          Some (Emit (Pending []) # gather (replicate (length fragments) (Pending [])) (sched pos) children))"
| "translateOne_p0 0 sched split pos callApi text instruction apiOptions = None"
| "translateOne_p0 (Suc n) sched split pos callApi text instruction apiOptions =
     (case callApi text instruction apiOptions of (updates, res) \<Rightarrow>
        let started = Emit (Pending []) # map Emit updates in
        (case res of
           Error msg \<Rightarrow>
             if matches_size_or_stream msg then
               (case split text 0 of
                  None \<Rightarrow> Some (started @ [Settle (Returned (Some text))])
                | Some splitResult \<Rightarrow>
                    map_option ((@) started)
                      (translateMultiple_p0 n sched split pos callApi splitResult instruction apiOptions))
             else Some (started @ [Settle (Thrown msg)])
         | Done t \<Rightarrow> Some (started @ [Settle (Returned (Some t))])
         | _ \<Rightarrow> Some (started @ [Settle (Returned None)])))"

section \<open>The blank-line splitter and the code-block shield\<close>


text \<open>
  Modelled from the spec: \<^verbatim>\<open>splitStringAtBlankLines\<close> of \<^verbatim>\<open>md-utils.ts\<close>, which is not part
  of the sources, in its bisection mode (budget 0), after section 4.2 of the
  specification. The lines of a text are the pieces between its newline characters, and
  joining them puts the newlines back.
\<close>

fun split_lines :: "string \<Rightarrow> string list" where
  "split_lines [] = [[]]"
| "split_lines (c # cs) =
     (if c = CHR 0x0A then [] # split_lines cs
      else (case split_lines cs of [] \<Rightarrow> [[c]] | l # ls \<Rightarrow> (c # l) # ls))"

text \<open>
  Modelled from the spec: joining lines with the newline character between them, the inverse of
  splitting a text into its lines.
\<close>

fun join_lines :: "string list \<Rightarrow> string" where
  "join_lines [] = []"
| "join_lines [l] = l"
| "join_lines (l # l' # ls) = l @ CHR 0x0A # join_lines (l' # ls)"

text \<open>
  Modelled from the spec: a blank-line boundary is a run of one or more consecutive empty
  lines \<open>i\<close> to \<open>j\<close> that separates two non-empty lines.
\<close>

definition boundaries :: "string list \<Rightarrow> (nat \<times> nat) list" where
  "boundaries ls =
     filter (\<lambda>(i, j). 0 < i \<and> i \<le> j \<and> Suc j < length ls
                     \<and> list_all (\<lambda>k. ls ! k = []) [i..<Suc j]
                     \<and> ls ! (i - 1) \<noteq> [] \<and> ls ! Suc j \<noteq> [])
       (List.product [0..<length ls] [0..<length ls])"

text \<open>
  Modelled from the spec: the boundary nearest the midpoint of the document, the midpoint
  and the distance counted in lines, the first one winning a tie.
\<close>

definition distance :: "nat \<Rightarrow> nat \<times> nat \<Rightarrow> nat" where
  "distance mid b = (if mid < fst b then fst b - mid else if snd b < mid then mid - snd b else 0)"

text \<open>
  Modelled from the spec: the choice among the boundaries, in document order, of the one with the
  least distance to the midpoint.
\<close>

fun nearest :: "nat \<Rightarrow> (nat \<times> nat) list \<Rightarrow> (nat \<times> nat) option" where
  "nearest mid [] = None"
| "nearest mid (b # bs) =
     (case nearest mid bs of
        None \<Rightarrow> Some b
      | Some b' \<Rightarrow> if distance mid b \<le> distance mid b' then Some b else Some b')"

text \<open>
  Modelled from the spec: \<^verbatim>\<open>splitStringAtBlankLines(text, 0)\<close> returns \<^verbatim>\<open>null\<close> when the text
  has no blank-line boundary, and otherwise the two fragments before and after the
  boundary nearest the midpoint, the newlines of the boundary removed.
\<close>

definition splitStringAtBlankLines0 :: "string \<Rightarrow> string list option" where
  "splitStringAtBlankLines0 text =
     (let ls = split_lines text in
      case nearest (length ls div 2) (boundaries ls) of
        None \<Rightarrow> None
      | Some (i, j) \<Rightarrow> Some [join_lines (take i ls), join_lines (drop (Suc j) ls)])"


text \<open>
  Modelled from the spec: \<^verbatim>\<open>replaceCodeBlocks\<close> and \<^verbatim>\<open>restoreCodeBlocks\<close> of \<^verbatim>\<open>md-utils.ts\<close>,
  which is not part of the sources, after sections 3, 4.1 and 9 of the specification.
  First, whether a string starts another one and whether it occurs in it.
\<close>

fun is_prefix :: "string \<Rightarrow> string \<Rightarrow> bool" where
  "is_prefix [] s = True"
| "is_prefix (p # ps) [] = False"
| "is_prefix (p # ps) (c # cs) = (p = c \<and> is_prefix ps cs)"

text \<open>
  Modelled from the spec: whether a marker occurs in a text, at any position.
\<close>

fun occurs_in :: "string \<Rightarrow> string \<Rightarrow> bool" where
  "occurs_in m [] = is_prefix m []"
| "occurs_in m (c # cs) = (is_prefix m (c # cs) \<or> occurs_in m cs)"

text \<open>
  Modelled from the spec: the marker of a placeholder is a reserved token followed by the
  numeric id, and a marker inserted into the text must not collide with text already
  there: the id is chosen again, counting upwards, until the marker does not occur in the
  document. A marker longer than the document cannot occur in it, so the search ends.
\<close>

fun decimal :: "nat \<Rightarrow> string" where
  "decimal n =
     (if n < 10 then [char_of (48 + n)] else decimal (n div 10) @ [char_of (48 + n mod 10)])"

declare decimal.simps [simp del]

text \<open>
  Modelled from the spec: the inline marker that stands for the placeholder with a given id.
\<close>

definition marker :: "nat \<Rightarrow> string" where
  "marker i = ''%CODEBLOCK-'' @ decimal i"

text \<open>
  Modelled from the spec: the first id from \<open>n\<close> on whose marker does not occur in the document.
\<close>

function next_id :: "string \<Rightarrow> nat \<Rightarrow> nat" where
  "next_id d n = (if occurs_in (marker n) d then next_id d (Suc n) else n)"
  by pat_completeness auto
termination
proof (relation "measure (\<lambda>(d, n). 10 ^ length d - n)")
  show "wf (measure (\<lambda>(d, n). 10 ^ length d - n))" by simp
next
  fix d :: string and n :: nat
  assume occ: "occurs_in (marker n) d"
  have pre: "is_prefix m s \<Longrightarrow> length m \<le> length s" for m s
    by (induction m s rule: is_prefix.induct) simp_all
  have len: "occurs_in m s \<Longrightarrow> length m \<le> length s" for m s
    by (induction s) (auto dest: pre)
  have dec: "k < 10 ^ length (decimal k)" for k
  proof (induction k rule: decimal.induct)
    case (1 k)
    show ?case
    proof (cases "k < 10")
      case True
      then show ?thesis by (simp add: decimal.simps [of k])
    next
      case False
      with 1 have "k div 10 < 10 ^ length (decimal (k div 10))" by simp
      then have "k < 10 * 10 ^ length (decimal (k div 10))" by simp
      with False show ?thesis by (simp add: decimal.simps [of k])
    qed
  qed
  from len [OF occ] have "length (decimal n) \<le> length d" by (simp add: marker_def)
  then have "(10::nat) ^ length (decimal n) \<le> 10 ^ length d" by (simp add: power_increasing)
  with dec [of n] have "n < 10 ^ length d" by (rule less_le_trans)
  then show "((d, Suc n), (d, n)) \<in> measure (\<lambda>(d, n). 10 ^ length d - n)" by simp
qed

declare next_id.simps [simp del]

text \<open>
  Modelled from the spec: the fenced code regions of a document. A fence opens with three
  backquotes at the start of a line and closes with the next three backquotes at the
  start of a later line; a fence that is never closed is prose.
\<close>

datatype Segment = Prose string | Code string

text \<open>
  Modelled from the spec: the closing fence of a region: the text up to and including the next
  three backquotes at the start of a line, and the text after them.
\<close>

fun find_close :: "string \<Rightarrow> (string \<times> string) option" where
  "find_close [] = None"
| "find_close (c # cs) =
     (if is_prefix [CHR 0x0A, CHR ''`'', CHR ''`'', CHR ''`''] (c # cs)
      then Some (take 4 (c # cs), drop 4 (c # cs))
      else map_option (\<lambda>(block, rest). (c # block, rest)) (find_close cs))"

text \<open>
  Modelled from the spec: one more character of prose in front of the segments found so far.
\<close>

fun add_prose :: "char \<Rightarrow> Segment list \<Rightarrow> Segment list" where
  "add_prose c (Prose p # segs) = Prose (c # p) # segs"
| "add_prose c segs = Prose [c] # segs"

text \<open>
  Modelled from the spec: the document cut into prose and fenced code regions, in document order;
  the flag says whether the scan is at the start of a line.
\<close>

function segments :: "bool \<Rightarrow> string \<Rightarrow> Segment list" where
  "segments line_start [] = []"
| "segments line_start (c # cs) =
     (if line_start \<and> is_prefix ''```'' (c # cs) then
        (case find_close (drop 3 (c # cs)) of
           None \<Rightarrow> [Prose (c # cs)]
         | Some (block, rest) \<Rightarrow> Code (''```'' @ block) # segments False rest)
      else add_prose c (segments (c = CHR 0x0A) cs))"
  by pat_completeness auto
termination
proof -
  have fc: "find_close s = Some (b, r) \<Longrightarrow> length r \<le> length s" for s b r
    by (induction s arbitrary: b) (auto split: if_splits)
  have "length r < length (c # cs)" if "find_close (drop 3 (c # cs)) = Some (b, r)" for c cs b r
    using fc [OF that] by simp
  then show ?thesis
    by (relation "measure (\<lambda>(b, s). length s)") auto
qed

text \<open>
  Modelled from the spec: extraction replaces each fenced region, in document order, by
  the marker of a fresh id and stores the region verbatim under that id.
\<close>

datatype CodeBlockPlaceholder = Placeholder (block_id: nat) (originalText: string)

text \<open>
  Modelled from the spec: the result of extraction: the shielded text and the ordered table of
  placeholders.
\<close>

record Shielded =
  output_text :: string
  codeBlocks :: "CodeBlockPlaceholder list"

text \<open>
  Modelled from the spec: the original text of a segment.
\<close>

fun text_of :: "Segment \<Rightarrow> string" where
  "text_of (Prose p) = p"
| "text_of (Code c) = c"

text \<open>
  Modelled from the spec: extraction over the segments, \<open>n\<close> being the least id not yet tried.
\<close>

fun shield :: "string \<Rightarrow> nat \<Rightarrow> Segment list \<Rightarrow> string \<times> CodeBlockPlaceholder list" where
  "shield d n [] = ([], [])"
| "shield d n (Prose p # segs) = (case shield d n segs of (out, blocks) \<Rightarrow> (p @ out, blocks))"
| "shield d n (Code c # segs) =
     (let i = next_id d n in
      case shield d (Suc i) segs of (out, blocks) \<Rightarrow> (marker i @ out, Placeholder i c # blocks))"

text \<open>
  Modelled from the spec: \<^verbatim>\<open>replaceCodeBlocks\<close>, the extraction of the fenced regions of a document.
\<close>

definition replaceCodeBlocks :: "string \<Rightarrow> Shielded" where
  "replaceCodeBlocks d =
     (case shield d 0 (segments True d) of (out, blocks) \<Rightarrow> \<lparr>output_text = out, codeBlocks = blocks\<rparr>)"

text \<open>
  Modelled from the spec: restoration is driven by the markers: it replaces, for each
  placeholder in the order they were produced, the first occurrence of its marker by the
  stored text.
\<close>

fun replace_first :: "string \<Rightarrow> string \<Rightarrow> string \<Rightarrow> string" where
  "replace_first m r [] = (if m = [] then r else [])"
| "replace_first m r (c # cs) =
     (if is_prefix m (c # cs) then r @ drop (length m) (c # cs) else c # replace_first m r cs)"

text \<open>
  Modelled from the spec: \<^verbatim>\<open>restoreCodeBlocks\<close>, the restoration of the stored regions, marker by
  marker.
\<close>

fun restoreCodeBlocks :: "string \<Rightarrow> CodeBlockPlaceholder list \<Rightarrow> string" where
  "restoreCodeBlocks text [] = text"
| "restoreCodeBlocks text (Placeholder i original # blocks) =
     restoreCodeBlocks (replace_first (marker i) original text) blocks"



section \<open>Notions used to state the properties\<close>

text \<open>
  An order of events \<open>m\<close> is a merge of the streams \<open>qs\<close> of the children: it takes the
  events of each child in their order, and all of them.
\<close>

inductive merges :: "(nat \<times> 'a) list \<Rightarrow> 'a list list \<Rightarrow> bool" where
  finished: "\<forall>q\<in>set qs. q = [] \<Longrightarrow> merges [] qs"
| turn: "i < length qs \<Longrightarrow> qs ! i = x # q \<Longrightarrow> merges m (qs[i := q]) \<Longrightarrow> merges ((i, x) # m) qs"

text \<open>
  A stream completes with \<open>v\<close> when it consists of statuses followed by the fulfilment
  with \<open>v\<close>; it fails when its promise is rejected and never fulfilled; no success is
  reported in a stream without a fulfilment and without a \<^verbatim>\<open>done\<close> status.
\<close>

definition completes :: "Event list \<Rightarrow> string option \<Rightarrow> bool" where
  "completes es v \<longleftrightarrow> (\<exists>ss. es = map Emit ss @ [Settle (Returned v)])"

definition fails :: "Event list \<Rightarrow> bool" where
  "fails es \<longleftrightarrow> (\<exists>m. Settle (Thrown m) \<in> set es) \<and> (\<forall>v. Settle (Returned v) \<notin> set es)"

definition no_success :: "Event list \<Rightarrow> bool" where
  "no_success es \<longleftrightarrow> (\<forall>v. Settle (Returned v) \<notin> set es) \<and> (\<forall>t. Emit (Done t) \<notin> set es)"

definition settles :: "Event list \<Rightarrow> bool" where
  "settles es \<longleftrightarrow> (\<exists>v. completes es v) \<or> fails es"

text \<open>
  The invariant of \<^const>\<open>drive\<close> while every child completes: a child either still has its
  whole remaining stream ahead, or is through and its value is recorded.
\<close>

definition pool_ok :: "Pool \<Rightarrow> Event list list \<Rightarrow> string option list \<Rightarrow> bool" where
  "pool_ok st qs vs \<longleftrightarrow>
     length (results st) = length qs \<and> length vs = length qs \<and> \<not> settled st \<and>
     (\<forall>i<length qs. (qs ! i = [] \<and> results st ! i = Fulfilled (vs ! i))
                    \<or> (results st ! i = Unsettled \<and> completes (qs ! i) (vs ! i)))"

text \<open>
  Two streams have the same shape when they agree event by event up to the status that an
  \<^const>\<open>Emit\<close> carries.
\<close>

fun same_kind :: "Event \<Rightarrow> Event \<Rightarrow> bool" where
  "same_kind (Emit s) (Emit s') = True"
| "same_kind (Settle r) (Settle r') = (r = r')"
| "same_kind _ _ = False"

definition same_shape :: "Event list \<Rightarrow> Event list \<Rightarrow> bool" where
  "same_shape es es' \<longleftrightarrow> list_all2 same_kind es es'"

definition same_turn :: "nat \<times> Event \<Rightarrow> nat \<times> Event \<Rightarrow> bool" where
  "same_turn x y \<longleftrightarrow> fst x = fst y \<and> same_kind (snd x) (snd y)"

text \<open>
  The specification's status aggregator, for comparison with \<^const>\<open>handleNewStatus\<close>:
  \<open>render\<close> is the one-line text of a status (the empty string where \<^verbatim>\<open>statusToText\<close>
  gives \<^verbatim>\<open>undefined\<close>, as \<^verbatim>\<open>join\<close> prints it), and \<open>combine\<close> is \<^verbatim>\<open>pending\<close> with the
  bracketed, comma-separated renderings of the statuses in their order. The composites of
  a sequence of slot updates are what \<open>combine\<close> gives after each update.
\<close>

definition render :: "StatusValue \<Rightarrow> string" where
  "render s = js_text (statusToText s)"

definition combine :: "StatusValue list \<Rightarrow> StatusValue" where
  "combine sts = Pending (''['' @ drop 2 (concat (map (\<lambda>s. '', '' @ render s) sts)) @ '']'')"

fun composites :: "StatusValue list \<Rightarrow> (nat \<times> StatusValue) list \<Rightarrow> StatusValue list" where
  "composites sts [] = []"
| "composites sts ((i, s) # ups) = combine (sts[i := s]) # composites (sts[i := s]) ups"

fun updates_of :: "(nat \<times> Event) list \<Rightarrow> (nat \<times> StatusValue) list" where
  "updates_of [] = []"
| "updates_of ((i, Emit s) # m) = (i, s) # updates_of m"
| "updates_of ((i, Settle r) # m) = updates_of m"


section \<open>Rendering one status\<close>

lemma replace_newlines_no_newline: "CHR 0x0A \<notin> set (replace_newlines s)"
  by (auto simp: replace_newlines_def)

lemma replace_newlines_length: "length (replace_newlines s) = length s"
  by (simp add: replace_newlines_def)

text \<open>
  C8. \<^verbatim>\<open>statusToText\<close> returns a non-empty string on each of the three variants of
  \<^verbatim>\<open>Status\<close>: the waiting glyph for \<^verbatim>\<open>pending\<close> with an empty token, the in-progress
  glyph, a space and the token with every newline replaced by a space for \<^verbatim>\<open>pending\<close>
  with a non-empty token, the success glyph for \<^verbatim>\<open>done\<close>, the failure glyph, a space
  and the message for \<^verbatim>\<open>error\<close>; and \<^verbatim>\<open>pending("")\<close> and \<^verbatim>\<open>pending("x")\<close> render
  differently.
\<close>

theorem statusToText_total:
  "statusToText (Pending []) = Some glyph_waiting
   \<and> (\<forall>t. t \<noteq> [] \<longrightarrow>
         statusToText (Pending t)
           = Some (glyph_progress @ '' '' @ map (\<lambda>c. if c = CHR 0x0A then CHR '' '' else c) t)
         \<and> CHR 0x0A \<notin> set (the (statusToText (Pending t))))
   \<and> (\<forall>t. statusToText (Done t) = Some glyph_success)
   \<and> (\<forall>m. statusToText (Error m) = Some (glyph_failure @ '' '' @ m))
   \<and> (\<forall>s. declared s \<longrightarrow> (\<exists>r. statusToText s = Some r \<and> r \<noteq> []))
   \<and> statusToText (Pending []) \<noteq> statusToText (Pending ''x'')"
proof -
  have nonempty: "\<exists>r. statusToText s = Some r \<and> r \<noteq> []" if "declared s" for s
    using that by (cases s) (simp_all add: glyph_waiting_def glyph_success_def)
  have nl: "CHR 0x0A \<notin> set (the (statusToText (Pending t)))" if "t \<noteq> []" for t
    using that replace_newlines_no_newline [of t] by (simp add: glyph_progress_def)
  have diff: "statusToText (Pending []) \<noteq> statusToText (Pending ''x'')"
    by (simp add: glyph_waiting_def glyph_progress_def)
  show ?thesis
    using nonempty nl diff by (simp add: replace_newlines_def)
qed

theorem statusToText_total_witness:
  "declared (Pending ''a b'') \<and> ''a b'' \<noteq> []
   \<and> statusToText (Pending ''a b'') = Some (glyph_progress @ '' a b'')
   \<and> (\<exists>r. statusToText (Pending ''a b'') = Some r \<and> r \<noteq> [])"
  using statusToText_total by simp


section \<open>Merging the events of the children\<close>

lemma merges_queue:
  "merges m (es @ q' # qs) \<Longrightarrow> q' = [] \<Longrightarrow> merges (map (Pair (length es)) q @ m) (es @ q # qs)"
proof (induction q)
  case Nil
  then show ?case by simp
next
  case (Cons x q)
  have "merges ((length es, x) # (map (Pair (length es)) q @ m)) (es @ (x # q) # qs)"
  proof (rule merges.turn)
    show "length es < length (es @ (x # q) # qs)" by simp
    show "(es @ (x # q) # qs) ! length es = x # q" by simp
    show "merges (map (Pair (length es)) q @ m) ((es @ (x # q) # qs)[length es := q])"
      using Cons by simp
  qed
  then show ?case by simp
qed

lemma merges_flush:
  "\<forall>q\<in>set es. q = [] \<Longrightarrow>
   merges (concat (map (\<lambda>(i, q). map (Pair i) q) (enumerate (length es) qs))) (es @ qs)"
proof (induction qs arbitrary: es)
  case Nil
  then show ?case by (simp add: merges.finished)
next
  case (Cons q qs)
  have "merges (concat (map (\<lambda>(i, q). map (Pair i) q) (enumerate (length (es @ [[]])) qs))) ((es @ [[]]) @ qs)"
    using Cons.prems by (intro Cons.IH) simp
  then have "merges (concat (map (\<lambda>(i, q). map (Pair i) q) (enumerate (Suc (length es)) qs))) (es @ [] # qs)"
    by simp
  from merges_queue [OF this refl, of q] show ?case by simp
qed

lemma merges_interleave: "merges (interleave plan qs) qs"
proof (induction plan arbitrary: qs)
  case Nil
  show ?case using merges_flush [of "[]" qs] by simp
next
  case (Cons i plan)
  show ?case
  proof (cases "i < length qs")
    case False
    then show ?thesis using Cons by simp
  next
    case True
    show ?thesis
    proof (cases "qs ! i")
      case Nil
      then show ?thesis using True Cons by simp
    next
      case (Cons x q)
      then show ?thesis using True Cons.IH [of "qs[i := q]"] by (simp add: merges.turn)
    qed
  qed
qed

lemma merges_all_empty: "merges m qs \<Longrightarrow> \<forall>q\<in>set qs. q = [] \<Longrightarrow> m = []"
proof (induction rule: merges.induct)
  case (finished qs)
  show ?case by simp
next
  case (turn i qs x q m)
  from turn.hyps(1) have "qs ! i \<in> set qs" by (rule nth_mem)
  with turn.prems turn.hyps(2) show ?case by auto
qed

lemma step_Emit:
  "step st (i, Emit s) =
     (st\<lparr>statuses := (statuses st)[i := s]\<rparr>,
      [Emit (Pending (''['' @ js_join '', '' (map statusToText ((statuses st)[i := s])) @ '']''))])"
  by (simp add: handleNewStatus_def Let_def)

lemma completes_Emit: "completes (Emit s # q) v \<longleftrightarrow> completes q v"
proof
  assume "completes (Emit s # q) v"
  then obtain ss where ss: "Emit s # q = map Emit ss @ [Settle (Returned v)]"
    by (auto simp: completes_def)
  then obtain ss' where "ss = s # ss'" by (cases ss) auto
  with ss show "completes q v" by (auto simp: completes_def)
next
  assume "completes q v"
  then obtain ss where "q = map Emit ss @ [Settle (Returned v)]" by (auto simp: completes_def)
  then have "Emit s # q = map Emit (s # ss) @ [Settle (Returned v)]" by simp
  then show "completes (Emit s # q) v" unfolding completes_def by blast
qed

lemma completes_Settle: "completes (Settle r # q) v \<longleftrightarrow> r = Returned v \<and> q = []"
proof
  assume "completes (Settle r # q) v"
  then obtain ss where ss: "Settle r # q = map Emit ss @ [Settle (Returned v)]"
    by (auto simp: completes_def)
  then show "r = Returned v \<and> q = []" by (cases ss) auto
next
  assume "r = Returned v \<and> q = []"
  then have "Settle r # q = map Emit [] @ [Settle (Returned v)]" by simp
  then show "completes (Settle r # q) v" unfolding completes_def by blast
qed

lemma not_completes_Nil: "\<not> completes [] v"
  by (simp add: completes_def)

lemma all_fulfilled_nth: "all_fulfilled rs \<longleftrightarrow> (\<forall>i<length rs. rs ! i \<noteq> Unsettled)"
  by (simp add: all_fulfilled_def list_all_length)

lemma drive_all_returned:
  "merges m qs \<Longrightarrow> pool_ok st qs vs \<Longrightarrow> \<exists>i<length qs. qs ! i \<noteq> [] \<Longrightarrow>
   \<exists>cs. drive st m = map Emit cs @ finish (map Fulfilled vs) \<and> (\<forall>c\<in>set cs. is_Pending c)"
proof (induction arbitrary: st rule: merges.induct)
  case (finished qs)
  then show ?case by (auto dest: nth_mem)
next
  case (turn i qs x q m)
  have len: "length (results st) = length qs" "length vs = length qs" and ns: "\<not> settled st"
    using turn.prems(1) by (auto simp: pool_ok_def)
  have inv: "(qs ! j = [] \<and> results st ! j = Fulfilled (vs ! j))
             \<or> (results st ! j = Unsettled \<and> completes (qs ! j) (vs ! j))" if "j < length qs" for j
    using turn.prems(1) that by (auto simp: pool_ok_def)
  from inv [OF turn.hyps(1)] turn.hyps(2)
  have ui: "results st ! i = Unsettled" and ci: "completes (x # q) (vs ! i)" by auto
  show ?case
  proof (cases x)
    case (Emit s)
    define st' where "st' = st\<lparr>statuses := (statuses st)[i := s]\<rparr>"
    have ok: "pool_ok st' (qs[i := q]) vs"
      unfolding pool_ok_def
    proof (intro conjI allI impI)
      fix j assume "j < length (qs[i := q])"
      then have j: "j < length qs" by simp
      show "(qs[i := q] ! j = [] \<and> results st' ! j = Fulfilled (vs ! j))
            \<or> (results st' ! j = Unsettled \<and> completes (qs[i := q] ! j) (vs ! j))"
      proof (cases "j = i")
        case True
        then show ?thesis using ui ci Emit j by (simp add: st'_def completes_Emit)
      next
        case False
        then show ?thesis using inv [OF j] by (simp add: st'_def)
      qed
    qed (simp_all add: st'_def len ns)
    have "q \<noteq> []" using ci Emit by (auto simp: completes_Emit not_completes_Nil)
    then have "\<exists>j<length (qs[i := q]). qs[i := q] ! j \<noteq> []"
      using turn.hyps(1) by (intro exI [of _ i]) simp
    from turn.IH [OF ok this] obtain cs where
      cs: "drive st' m = map Emit cs @ finish (map Fulfilled vs)" "\<forall>c\<in>set cs. is_Pending c"
      by blast
    define c where "c = Pending (''['' @ js_join '', '' (map statusToText ((statuses st)[i := s])) @ '']'')"
    have "drive st ((i, x) # m) = map Emit (c # cs) @ finish (map Fulfilled vs)"
      using cs(1) Emit by (simp add: step_Emit st'_def c_def del: step.simps)
    moreover have "\<forall>c'\<in>set (c # cs). is_Pending c'" using cs(2) by (simp add: c_def)
    ultimately show ?thesis by blast
  next
    case (Settle r)
    with ci have r: "r = Returned (vs ! i)" and q: "q = []" by (auto simp: completes_Settle)
    define rs where "rs = (results st)[i := Fulfilled (vs ! i)]"
    show ?thesis
    proof (cases "all_fulfilled rs")
      case True
      have full: "rs ! j = Fulfilled (vs ! j) \<and> qs[i := q] ! j = []" if "j < length qs" for j
      proof (cases "j = i")
        case True
        then show ?thesis using that len q by (simp add: rs_def)
      next
        case False
        from True that len have "rs ! j \<noteq> Unsettled" by (simp add: all_fulfilled_nth rs_def)
        with False have "results st ! j \<noteq> Unsettled" by (simp add: rs_def)
        with inv [OF that] False show ?thesis by (auto simp: rs_def)
      qed
      have "rs = map Fulfilled vs"
        by (rule nth_equalityI) (use full len in \<open>simp_all add: rs_def\<close>)
      moreover have "\<forall>q'\<in>set (qs[i := q]). q' = []"
        using full by (auto simp: in_set_conv_nth)
      with turn.hyps(3) have "m = []" by (rule merges_all_empty)
      ultimately have "drive st ((i, x) # m) = map Emit [] @ finish (map Fulfilled vs)"
        using Settle r ns True by (simp add: rs_def Let_def)
      then show ?thesis by (intro exI [of _ "[]"]) simp
    next
      case False
      then obtain j where j: "j < length qs" "rs ! j = Unsettled"
        using len by (auto simp: all_fulfilled_nth rs_def)
      then have ji: "j \<noteq> i" using len by (auto simp: rs_def)
      define st' where "st' = st\<lparr>results := rs\<rparr>"
      have ok: "pool_ok st' (qs[i := q]) vs"
        unfolding pool_ok_def
      proof (intro conjI allI impI)
        fix k assume "k < length (qs[i := q])"
        then have k: "k < length qs" by simp
        show "(qs[i := q] ! k = [] \<and> results st' ! k = Fulfilled (vs ! k))
              \<or> (results st' ! k = Unsettled \<and> completes (qs[i := q] ! k) (vs ! k))"
        proof (cases "k = i")
          case True
          then show ?thesis using k len q by (simp add: st'_def rs_def)
        next
          case False
          then show ?thesis using inv [OF k] by (simp add: st'_def rs_def)
        qed
      qed (simp_all add: st'_def rs_def len ns)
      from inv [OF j(1)] j(2) ji have "qs ! j \<noteq> []"
        by (auto simp: rs_def not_completes_Nil)
      then have "\<exists>k<length (qs[i := q]). qs[i := q] ! k \<noteq> []"
        using j(1) ji by (intro exI [of _ j]) simp
      from turn.IH [OF ok this] obtain cs where
        cs: "drive st' m = map Emit cs @ finish (map Fulfilled vs)" "\<forall>c\<in>set cs. is_Pending c"
        by blast
      have "drive st ((i, x) # m) = drive st' m"
        using Settle r False ns by (simp add: rs_def st'_def Let_def)
      with cs show ?thesis by auto
    qed
  qed
qed


section \<open>A failing child\<close>

lemma set_finish: "set (finish rs) = {Emit (Done (js_join [CHR 0x0A, CHR 0x0A] (map fulfilled_value rs))),
   Settle (Returned (Some (js_join [CHR 0x0A, CHR 0x0A] (map fulfilled_value rs))))}"
  by (simp add: finish_def Let_def)

lemma drive_no_success:
  "merges m qs \<Longrightarrow> i < length qs \<Longrightarrow> length (results st) = length qs \<Longrightarrow>
   results st ! i = Unsettled \<Longrightarrow> \<forall>v. Settle (Returned v) \<notin> set (qs ! i) \<Longrightarrow>
   no_success (drive st m)"
proof (induction arbitrary: st rule: merges.induct)
  case (finished qs)
  show ?case by (simp add: no_success_def)
next
  case (turn k qs x q m)
  have sub: "\<forall>v. Settle (Returned v) \<notin> set (qs[k := q] ! i)"
    using turn.prems(4) turn.hyps(1,2) by (cases "i = k") auto
  have i': "i < length (qs[k := q])" using turn.prems(1) by simp
  show ?case
  proof (cases x)
    case (Emit s)
    have "no_success (drive (st\<lparr>statuses := (statuses st)[k := s]\<rparr>) m)"
      using turn.prems by (intro turn.IH [OF i' _ _ sub]) simp_all
    then show ?thesis using Emit by (simp add: step_Emit no_success_def del: step.simps)
  next
    case (Settle r)
    show ?thesis
    proof (cases r)
      case (Thrown msg)
      have "no_success (drive (st\<lparr>settled := True\<rparr>) m)" "no_success (drive st m)"
        using turn.prems by (intro turn.IH [OF i' _ _ sub]; simp)+
      then show ?thesis using Settle Thrown by (simp add: no_success_def)
    next
      case (Returned v)
      have ki: "k \<noteq> i" using turn.prems(4) turn.hyps(2) Settle Returned by auto
      define rs where "rs = (results st)[k := Fulfilled v]"
      have "rs ! i = Unsettled" using ki turn.prems(3) by (simp add: rs_def)
      moreover have "i < length rs" using turn.prems(1,2) by (simp add: rs_def)
      ultimately have nf: "\<not> all_fulfilled rs" by (auto simp: all_fulfilled_nth)
      have "no_success (drive (st\<lparr>results := rs\<rparr>) m)"
        using turn.prems ki by (intro turn.IH [OF i' _ _ sub]) (simp_all add: rs_def)
      then show ?thesis using Settle Returned nf by (simp add: rs_def Let_def)
    qed
  qed
qed

lemma drive_throws:
  "merges m qs \<Longrightarrow> i < length qs \<Longrightarrow> length (results st) = length qs \<Longrightarrow>
   results st ! i = Unsettled \<Longrightarrow> \<forall>v. Settle (Returned v) \<notin> set (qs ! i) \<Longrightarrow>
   Settle (Thrown msg) \<in> set (qs ! i) \<Longrightarrow> \<not> settled st \<Longrightarrow>
   \<exists>msg' j. j < length qs \<and> Settle (Thrown msg') \<in> set (qs ! j)
            \<and> outcome (drive st m) = Some (Thrown msg')"
proof (induction arbitrary: st rule: merges.induct)
  case (finished qs)
  from finished.prems(1) have "qs ! i \<in> set qs" by (rule nth_mem)
  with finished.hyps have "qs ! i = []" by blast
  with finished.prems(5) show ?case by simp
next
  case (turn k qs x q m)
  have sub: "\<forall>v. Settle (Returned v) \<notin> set (qs[k := q] ! i)"
    using turn.prems(4) turn.hyps(1,2) by (cases "i = k") auto
  have i': "i < length (qs[k := q])" using turn.prems(1) by simp
  have lift: "\<exists>msg' j. j < length qs \<and> Settle (Thrown msg') \<in> set (qs ! j) \<and> P msg'"
    if "\<exists>msg' j. j < length (qs[k := q]) \<and> Settle (Thrown msg') \<in> set (qs[k := q] ! j) \<and> P msg'"
    for P
  proof -
    from that obtain msg' j where j: "j < length qs" "Settle (Thrown msg') \<in> set (qs[k := q] ! j)" "P msg'"
      by auto
    have "Settle (Thrown msg') \<in> set (qs ! j)"
      using j(1,2) turn.hyps(2) by (cases "j = k") auto
    with j show ?thesis by blast
  qed
  show ?case
  proof (cases x)
    case (Emit s)
    have th: "Settle (Thrown msg) \<in> set (qs[k := q] ! i)"
      using turn.prems(5) turn.hyps(1,2) Emit by (cases "i = k") auto
    have "\<exists>msg' j. j < length (qs[k := q]) \<and> Settle (Thrown msg') \<in> set (qs[k := q] ! j)
            \<and> outcome (drive (st\<lparr>statuses := (statuses st)[k := s]\<rparr>) m) = Some (Thrown msg')"
      using turn.prems by (intro turn.IH [OF i' _ _ sub th]) simp_all
    from lift [OF this] show ?thesis using Emit by (simp add: step_Emit del: step.simps)
  next
    case (Settle r)
    show ?thesis
    proof (cases r)
      case (Thrown m0)
      have "Settle (Thrown m0) \<in> set (qs ! k)" using turn.hyps(2) Settle Thrown by simp
      moreover have "outcome (drive st ((k, x) # m)) = Some (Thrown m0)"
        using Settle Thrown turn.prems(6) by simp
      ultimately show ?thesis using turn.hyps(1) by blast
    next
      case (Returned v)
      have ki: "k \<noteq> i" using turn.prems(4) turn.hyps(2) Settle Returned by auto
      have th: "Settle (Thrown msg) \<in> set (qs[k := q] ! i)"
        using turn.prems(5) ki by simp
      define rs where "rs = (results st)[k := Fulfilled v]"
      have "rs ! i = Unsettled" using ki turn.prems(3) by (simp add: rs_def)
      moreover have "i < length rs" using turn.prems(1,2) by (simp add: rs_def)
      ultimately have nf: "\<not> all_fulfilled rs" by (auto simp: all_fulfilled_nth)
      have "\<exists>msg' j. j < length (qs[k := q]) \<and> Settle (Thrown msg') \<in> set (qs[k := q] ! j)
            \<and> outcome (drive (st\<lparr>results := rs\<rparr>) m) = Some (Thrown msg')"
        using turn.prems ki by (intro turn.IH [OF i' _ _ sub th]) (simp_all add: rs_def)
      from lift [OF this] show ?thesis using Settle Returned nf by (simp add: rs_def Let_def)
    qed
  qed
qed

lemma outcome_in_set: "outcome es = Some r \<Longrightarrow> Settle r \<in> set es"
  by (induction es rule: outcome.induct) auto

lemma outcome_completes: "completes es v \<Longrightarrow> outcome es = Some (Returned v)"
proof -
  have "outcome (map Emit ss @ rest) = outcome rest" for ss rest
    by (induction ss) auto
  then show "completes es v \<Longrightarrow> outcome es = Some (Returned v)"
    by (auto simp: completes_def)
qed

lemma outcome_fails: "fails es \<Longrightarrow> \<exists>m. outcome es = Some (Thrown m)"
proof -
  have "Settle r \<in> set es \<Longrightarrow> \<exists>r'. outcome es = Some r'" for r
    by (induction es rule: outcome.induct) auto
  moreover assume "fails es"
  ultimately obtain r' where r': "outcome es = Some r'" by (auto simp: fails_def)
  with \<open>fails es\<close> outcome_in_set [OF r'] show ?thesis
    by (cases r') (auto simp: fails_def)
qed


section \<open>Gathering the children\<close>

lemma completes_append: "completes es v \<Longrightarrow> completes (map Emit ss @ es) v"
  by (induction ss) (simp_all add: completes_Emit)

lemma fails_append: "fails es \<Longrightarrow> fails (map Emit ss @ es)"
  by (auto simp: fails_def)

lemma settles_append: "settles es \<Longrightarrow> settles (map Emit ss @ es)"
  unfolding settles_def using completes_append fails_append by blast

lemma completes_finish:
  "completes (map Emit cs @ finish rs) (Some (js_join [CHR 0x0A, CHR 0x0A] (map fulfilled_value rs)))"
proof -
  have "map Emit cs @ finish rs
        = map Emit (cs @ [Done (js_join [CHR 0x0A, CHR 0x0A] (map fulfilled_value rs))])
          @ [Settle (Returned (Some (js_join [CHR 0x0A, CHR 0x0A] (map fulfilled_value rs))))]"
    by (simp add: finish_def Let_def)
  then show ?thesis unfolding completes_def by blast
qed

lemma completes_not_fails: "completes es v \<Longrightarrow> \<not> fails es"
  by (auto simp: completes_def fails_def)

lemma gather_completes:
  assumes "length vs = length children"
    and "\<forall>i<length children. completes (children ! i) (vs ! i)"
  shows "\<exists>cs. gather sts plan children = map Emit cs @ finish (map Fulfilled vs)
              \<and> (\<forall>c\<in>set cs. is_Pending c)"
proof (cases "children = []")
  case True
  with assms(1) have "gather sts plan children = map Emit [] @ finish (map Fulfilled vs)"
    by (simp add: gather_def)
  then show ?thesis by (intro exI [of _ "[]"]) simp
next
  case False
  define st where "st = \<lparr>statuses = sts, results = replicate (length children) Unsettled, settled = False\<rparr>"
  have ok: "pool_ok st children vs"
    using assms by (simp add: pool_ok_def st_def)
  from False have 0: "0 < length children" by simp
  with assms(2) have "completes (children ! 0) (vs ! 0)" by blast
  then have "children ! 0 \<noteq> []" by (auto simp: not_completes_Nil)
  with 0 have "\<exists>i<length children. children ! i \<noteq> []" by blast
  from drive_all_returned [OF merges_interleave ok this, of "plan"] False
  show ?thesis by (simp add: gather_def st_def)
qed

lemma gather_fails:
  assumes "i < length children" and "fails (children ! i)"
  shows "no_success (gather sts plan children)"
    and "\<exists>msg' j. j < length children \<and> Settle (Thrown msg') \<in> set (children ! j)
            \<and> outcome (gather sts plan children) = Some (Thrown msg')"
proof -
  define st where "st = \<lparr>statuses = sts, results = replicate (length children) Unsettled, settled = False\<rparr>"
  from assms(1) have ne: "children \<noteq> []" by auto
  from assms(2) obtain msg where msg: "Settle (Thrown msg) \<in> set (children ! i)"
    and nr: "\<forall>v. Settle (Returned v) \<notin> set (children ! i)" by (auto simp: fails_def)
  have g: "gather sts plan children = drive st (interleave plan children)"
    using ne by (simp add: gather_def st_def)
  show "no_success (gather sts plan children)"
    unfolding g using assms(1) nr
    by (intro drive_no_success [OF merges_interleave, of i]) (simp_all add: st_def)
  show "\<exists>msg' j. j < length children \<and> Settle (Thrown msg') \<in> set (children ! j)
            \<and> outcome (gather sts plan children) = Some (Thrown msg')"
    unfolding g using assms(1) nr msg
    by (intro drive_throws [OF merges_interleave, of i _ _ msg]) (simp_all add: st_def)
qed

lemma gather_settles:
  assumes "\<forall>i<length children. settles (children ! i)"
  shows "settles (Emit (Pending []) # gather sts plan children)"
proof (cases "\<exists>i<length children. fails (children ! i)")
  case True
  then obtain i where i: "i < length children" "fails (children ! i)" by blast
  from gather_fails [OF i, of sts plan] outcome_in_set
  have "fails (gather sts plan children)"
    unfolding fails_def no_success_def by blast
  from fails_append [OF this, of "[Pending []]"] show ?thesis by (simp add: settles_def)
next
  case False
  with assms have "\<forall>i<length children. \<exists>v. completes (children ! i) v"
    by (auto simp: settles_def)
  then obtain f where f: "\<forall>i<length children. completes (children ! i) (f i)" by metis
  define vs where "vs = map f [0..<length children]"
  have "length vs = length children" "\<forall>i<length children. completes (children ! i) (vs ! i)"
    using f by (simp_all add: vs_def)
  from gather_completes [OF this, of sts plan] obtain cs where
    "gather sts plan children = map Emit cs @ finish (map Fulfilled vs)" by blast
  then have "Emit (Pending []) # gather sts plan children
             = map Emit (Pending [] # cs) @ finish (map Fulfilled vs)" by simp
  then show ?thesis unfolding settles_def using completes_finish by metis
qed

lemma those_map:
  "those (map f xs) = Some ys \<longleftrightarrow> length ys = length xs \<and> (\<forall>i<length xs. f (xs ! i) = Some (ys ! i))"
proof (induction xs arbitrary: ys)
  case Nil
  show ?case by auto
next
  case (Cons x xs)
  show ?case
  proof (cases "f x")
    case None
    then show ?thesis by auto
  next
    case (Some y)
    show ?thesis
    proof
      assume "those (map f (x # xs)) = Some ys"
      with Some obtain ys' where ys': "those (map f xs) = Some ys'" "ys = y # ys'"
        by (auto split: option.splits)
      with Cons.IH [of ys'] Some show "length ys = length (x # xs) \<and> (\<forall>i<length (x # xs). f ((x # xs) ! i) = Some (ys ! i))"
        by (auto simp: nth_Cons split: nat.splits)
    next
      assume a: "length ys = length (x # xs) \<and> (\<forall>i<length (x # xs). f ((x # xs) ! i) = Some (ys ! i))"
      then obtain y' ys' where ys: "ys = y' # ys'" by (cases ys) auto
      from a ys have "f x = Some y'" by auto
      moreover from a ys have "length ys' = length xs \<and> (\<forall>i<length xs. f (xs ! i) = Some (ys' ! i))"
        by fastforce
      ultimately show "those (map f (x # xs)) = Some ys"
        using Cons.IH [of ys'] ys by simp
    qed
  qed
qed


lemma translateMultiple_children:
  "those (map (\<lambda>(index, fragment).
                 translateOne n sched split (pos @ [index]) callApi fragment instruction apiOptions)
              (enumerate 0 fragments)) = Some children \<longleftrightarrow>
     length children = length fragments
     \<and> (\<forall>i<length fragments.
          translateOne n sched split (pos @ [i]) callApi (fragments ! i) instruction apiOptions
            = Some (children ! i))"
  by (simp add: those_map nth_enumerate_eq)

lemma translateMultiple_SucI:
  assumes "length children = length fragments"
    and "\<forall>i<length fragments.
           translateOne n sched split (pos @ [i]) callApi (fragments ! i) instruction apiOptions
             = Some (children ! i)"
  shows "translateMultiple (Suc n) sched split pos callApi fragments instruction apiOptions
           = Some (Emit (Pending []) # gather (replicate (length fragments) Waiting) (sched pos) children)"
proof -
  from assms have "those (map (\<lambda>(index, fragment).
                 translateOne n sched split (pos @ [index]) callApi fragment instruction apiOptions)
              (enumerate 0 fragments)) = Some children"
    by (simp only: translateMultiple_children)
  then show ?thesis by simp
qed

lemma translateMultiple_SucE:
  assumes "translateMultiple (Suc n) sched split pos callApi fragments instruction apiOptions = Some es"
  obtains children where "length children = length fragments"
    and "\<forall>i<length fragments.
           translateOne n sched split (pos @ [i]) callApi (fragments ! i) instruction apiOptions
             = Some (children ! i)"
    and "es = Emit (Pending []) # gather (replicate (length fragments) Waiting) (sched pos) children"
proof -
  from assms obtain children where
    ch: "those (map (\<lambda>(index, fragment).
                 translateOne n sched split (pos @ [index]) callApi fragment instruction apiOptions)
              (enumerate 0 fragments)) = Some children"
    and es: "es = Emit (Pending []) # gather (replicate (length fragments) Waiting) (sched pos) children"
    by (simp split: option.splits)
  from ch have "length children = length fragments
     \<and> (\<forall>i<length fragments.
          translateOne n sched split (pos @ [i]) callApi (fragments ! i) instruction apiOptions
            = Some (children ! i))"
    by (rule translateMultiple_children [THEN iffD1])
  with es that show thesis by blast
qed

lemma translateMultiple_p0_children:
  "those (map (\<lambda>(index, fragment).
                 translateOne_p0 n sched split (pos @ [index]) callApi fragment instruction apiOptions)
              (enumerate 0 fragments)) = Some children \<longleftrightarrow>
     length children = length fragments
     \<and> (\<forall>i<length fragments.
          translateOne_p0 n sched split (pos @ [i]) callApi (fragments ! i) instruction apiOptions
            = Some (children ! i))"
  by (simp add: those_map nth_enumerate_eq)

lemma translateMultiple_p0_SucI:
  assumes "length children = length fragments"
    and "\<forall>i<length fragments.
           translateOne_p0 n sched split (pos @ [i]) callApi (fragments ! i) instruction apiOptions
             = Some (children ! i)"
  shows "translateMultiple_p0 (Suc n) sched split pos callApi fragments instruction apiOptions
           = Some (Emit (Pending []) # gather (replicate (length fragments) (Pending [])) (sched pos) children)"
proof -
  from assms have "those (map (\<lambda>(index, fragment).
                 translateOne_p0 n sched split (pos @ [index]) callApi fragment instruction apiOptions)
              (enumerate 0 fragments)) = Some children"
    by (simp only: translateMultiple_p0_children)
  then show ?thesis by simp
qed

lemma translateMultiple_p0_SucE:
  assumes "translateMultiple_p0 (Suc n) sched split pos callApi fragments instruction apiOptions = Some es"
  obtains children where "length children = length fragments"
    and "\<forall>i<length fragments.
           translateOne_p0 n sched split (pos @ [i]) callApi (fragments ! i) instruction apiOptions
             = Some (children ! i)"
    and "es = Emit (Pending []) # gather (replicate (length fragments) (Pending [])) (sched pos) children"
proof -
  from assms obtain children where
    ch: "those (map (\<lambda>(index, fragment).
                 translateOne_p0 n sched split (pos @ [index]) callApi fragment instruction apiOptions)
              (enumerate 0 fragments)) = Some children"
    and es: "es = Emit (Pending []) # gather (replicate (length fragments) (Pending [])) (sched pos) children"
    by (simp split: option.splits)
  from ch have "length children = length fragments
     \<and> (\<forall>i<length fragments.
          translateOne_p0 n sched split (pos @ [i]) callApi (fragments ! i) instruction apiOptions
            = Some (children ! i))"
    by (rule translateMultiple_p0_children [THEN iffD1])
  with es that show thesis by blast
qed


section \<open>Every call settles\<close>

lemma translateOne_Suc:
  assumes "callApi text instruction apiOptions = (updates, res)"
  shows "translateOne (Suc n) sched split pos callApi text instruction apiOptions =
     (case res of
        Error msg \<Rightarrow>
          if matches_size_or_stream msg then
            (case split text 0 of
               None \<Rightarrow> Some (map Emit (Waiting # updates) @ [Settle (Returned (Some text))])
             | Some splitResult \<Rightarrow>
                 map_option ((@) (map Emit (Waiting # updates)))
                   (translateMultiple n sched split pos callApi splitResult instruction apiOptions))
          else Some (map Emit (Waiting # updates) @ [Settle (Thrown msg)])
      | Done t \<Rightarrow> Some (map Emit (Waiting # updates) @ [Settle (Returned (Some t))])
      | _ \<Rightarrow> Some (map Emit (Waiting # updates) @ [Settle (Returned None)]))"
  using assms by (cases res) (simp_all add: Let_def split: option.splits)

lemma settles_streams:
  "(\<forall>pos fragments es.
      translateMultiple n sched split pos callApi fragments instruction apiOptions = Some es \<longrightarrow> settles es)
   \<and> (\<forall>pos text es.
      translateOne n sched split pos callApi text instruction apiOptions = Some es \<longrightarrow> settles es)"
proof (induction n)
  case 0
  show ?case by simp
next
  case (Suc n)
  have many: "settles es"
    if "translateMultiple (Suc n) sched split pos callApi fragments instruction apiOptions = Some es"
    for pos fragments es
  proof -
    from that obtain children where ch: "length children = length fragments"
      "\<forall>i<length fragments.
         translateOne n sched split (pos @ [i]) callApi (fragments ! i) instruction apiOptions
           = Some (children ! i)"
      and es: "es = Emit (Pending []) # gather (replicate (length fragments) Waiting) (sched pos) children"
      by (rule translateMultiple_SucE)
    from ch Suc have "\<forall>i<length children. settles (children ! i)" by metis
    then show ?thesis unfolding es by (rule gather_settles)
  qed
  have one: "settles es"
    if "translateOne (Suc n) sched split pos callApi tx instruction apiOptions = Some es"
    for pos tx es
  proof -
    obtain updates res where c: "callApi tx instruction apiOptions = (updates, res)"
      by (cases "callApi tx instruction apiOptions")
    note eq = translateOne_Suc [of callApi tx instruction apiOptions updates res n sched split pos, OF c]
    have ret: "settles (Emit s # map Emit ss @ [Settle (Returned v)])" for s ss v
    proof -
      have "completes (map Emit (s # ss) @ [Settle (Returned v)]) v"
        unfolding completes_def by blast
      then show ?thesis by (auto simp: settles_def)
    qed
    have thr: "settles (Emit s # map Emit ss @ [Settle (Thrown m)])" for s ss m
      unfolding settles_def fails_def by auto
    show ?thesis
    proof (cases res)
      case (Error msg)
      show ?thesis
      proof (cases "matches_size_or_stream msg")
        case False
        with that Error show ?thesis unfolding eq using thr by auto
      next
        case True
        show ?thesis
        proof (cases "split tx 0")
          case None
          with that Error True show ?thesis unfolding eq using ret by auto
        next
          case (Some splitResult)
          with that Error True obtain es' where
            es': "translateMultiple n sched split pos callApi splitResult instruction apiOptions = Some es'"
            and es: "es = map Emit (Waiting # updates) @ es'"
            unfolding eq by auto
          from es' Suc have "settles es'" by blast
          from settles_append [OF this] show ?thesis unfolding es .
        qed
      qed
    next
      case (Pending t)
      with that show ?thesis unfolding eq using ret by auto
    next
      case (Done t)
      with that show ?thesis unfolding eq using ret by auto
    next
      case Waiting
      with that show ?thesis unfolding eq using ret by auto
    qed
  qed
  from many one show ?case by blast
qed

lemma translateOne_p0_Suc:
  assumes "callApi text instruction apiOptions = (updates, res)"
  shows "translateOne_p0 (Suc n) sched split pos callApi text instruction apiOptions =
     (case res of
        Error msg \<Rightarrow>
          if matches_size_or_stream msg then
            (case split text 0 of
               None \<Rightarrow> Some (map Emit ((Pending []) # updates) @ [Settle (Returned (Some text))])
             | Some splitResult \<Rightarrow>
                 map_option ((@) (map Emit ((Pending []) # updates)))
                   (translateMultiple_p0 n sched split pos callApi splitResult instruction apiOptions))
          else Some (map Emit ((Pending []) # updates) @ [Settle (Thrown msg)])
      | Done t \<Rightarrow> Some (map Emit ((Pending []) # updates) @ [Settle (Returned (Some t))])
      | _ \<Rightarrow> Some (map Emit ((Pending []) # updates) @ [Settle (Returned None)]))"
  using assms by (cases res) (simp_all add: Let_def split: option.splits)

lemma settles_streams_p0:
  "(\<forall>pos fragments es.
      translateMultiple_p0 n sched split pos callApi fragments instruction apiOptions = Some es \<longrightarrow> settles es)
   \<and> (\<forall>pos text es.
      translateOne_p0 n sched split pos callApi text instruction apiOptions = Some es \<longrightarrow> settles es)"
proof (induction n)
  case 0
  show ?case by simp
next
  case (Suc n)
  have many: "settles es"
    if "translateMultiple_p0 (Suc n) sched split pos callApi fragments instruction apiOptions = Some es"
    for pos fragments es
  proof -
    from that obtain children where ch: "length children = length fragments"
      "\<forall>i<length fragments.
         translateOne_p0 n sched split (pos @ [i]) callApi (fragments ! i) instruction apiOptions
           = Some (children ! i)"
      and es: "es = Emit (Pending []) # gather (replicate (length fragments) (Pending [])) (sched pos) children"
      by (rule translateMultiple_p0_SucE)
    from ch Suc have "\<forall>i<length children. settles (children ! i)" by metis
    then show ?thesis unfolding es by (rule gather_settles)
  qed
  have one: "settles es"
    if "translateOne_p0 (Suc n) sched split pos callApi tx instruction apiOptions = Some es"
    for pos tx es
  proof -
    obtain updates res where c: "callApi tx instruction apiOptions = (updates, res)"
      by (cases "callApi tx instruction apiOptions")
    note eq = translateOne_p0_Suc [of callApi tx instruction apiOptions updates res n sched split pos, OF c]
    have ret: "settles (Emit s # map Emit ss @ [Settle (Returned v)])" for s ss v
    proof -
      have "completes (map Emit (s # ss) @ [Settle (Returned v)]) v"
        unfolding completes_def by blast
      then show ?thesis by (auto simp: settles_def)
    qed
    have thr: "settles (Emit s # map Emit ss @ [Settle (Thrown m)])" for s ss m
      unfolding settles_def fails_def by auto
    show ?thesis
    proof (cases res)
      case (Error msg)
      show ?thesis
      proof (cases "matches_size_or_stream msg")
        case False
        with that Error show ?thesis unfolding eq using thr by auto
      next
        case True
        show ?thesis
        proof (cases "split tx 0")
          case None
          with that Error True show ?thesis unfolding eq using ret by auto
        next
          case (Some splitResult)
          with that Error True obtain es' where
            es': "translateMultiple_p0 n sched split pos callApi splitResult instruction apiOptions = Some es'"
            and es: "es = map Emit ((Pending []) # updates) @ es'"
            unfolding eq by auto
          from es' Suc have "settles es'" by blast
          from settles_append [OF this] show ?thesis unfolding es .
        qed
      qed
    next
      case (Pending t)
      with that show ?thesis unfolding eq using ret by auto
    next
      case (Done t)
      with that show ?thesis unfolding eq using ret by auto
    next
      case Waiting
      with that show ?thesis unfolding eq using ret by auto
    qed
  qed
  from many one show ?case by blast
qed


section \<open>The two source files compared\<close>

lemma same_shape_outcome: "same_shape es es' \<Longrightarrow> outcome es = outcome es'"
  unfolding same_shape_def
proof (induction rule: list_all2_induct)
  case Nil
  show ?case by simp
next
  case (Cons x xs y ys)
  then show ?case by (cases x; cases y) simp_all
qed

lemma same_shape_emitted: "same_shape es es' \<Longrightarrow> length (emitted es) = length (emitted es')"
  unfolding same_shape_def
proof (induction rule: list_all2_induct)
  case Nil
  show ?case by simp
next
  case (Cons x xs y ys)
  then show ?case by (cases x; cases y) simp_all
qed

lemma flush_shape:
  "list_all2 (list_all2 same_kind) qs qs' \<Longrightarrow>
   list_all2 same_turn (concat (map (\<lambda>(i, q). map (Pair i) q) (enumerate k qs)))
                       (concat (map (\<lambda>(i, q). map (Pair i) q) (enumerate k qs')))"
proof (induction arbitrary: k rule: list_all2_induct)
  case Nil
  show ?case by simp
next
  case (Cons q qs q' qs')
  have "list_all2 same_turn (map (Pair k) q) (map (Pair k) q')"
    using Cons.hyps(1) by (simp add: list_all2_map1 list_all2_map2 same_turn_def)
  with Cons.IH [of "Suc k"] show ?case by (simp add: list_all2_appendI)
qed

lemma interleave_shape:
  "list_all2 (list_all2 same_kind) qs qs' \<Longrightarrow>
   list_all2 same_turn (interleave plan qs) (interleave plan qs')"
proof (induction plan arbitrary: qs qs')
  case Nil
  then show ?case by (simp add: flush_shape)
next
  case (Cons i plan)
  have len: "length qs = length qs'" using Cons.prems by (rule list_all2_lengthD)
  show ?case
  proof (cases "i < length qs")
    case False
    with len Cons show ?thesis by simp
  next
    case True
    with Cons.prems have rel: "list_all2 same_kind (qs ! i) (qs' ! i)"
      by (simp add: list_all2_nthD)
    show ?thesis
    proof (cases "qs ! i")
      case Nil
      with rel have "qs' ! i = []" by simp
      with Nil True len Cons show ?thesis by simp
    next
      case (Cons x q)
      with rel obtain y q' where q': "qs' ! i = y # q'" "same_kind x y" "list_all2 same_kind q q'"
        by (auto simp: list_all2_Cons1)
      have "list_all2 (list_all2 same_kind) (qs[i := q]) (qs'[i := q'])"
        using Cons.prems q'(3) by (simp add: list_all2_update_cong)
      from Cons.IH [OF this] show ?thesis
        using Cons q' True len by (simp add: same_turn_def)
    qed
  qed
qed

lemma same_shape_append:
  "same_shape a a' \<Longrightarrow> same_shape b b' \<Longrightarrow> same_shape (a @ b) (a' @ b')"
  by (simp add: same_shape_def list_all2_appendI)

lemma same_shape_refl_finish: "same_shape (finish rs) (finish rs)"
  by (simp add: same_shape_def finish_def Let_def)

lemma drive_shape:
  "list_all2 same_turn m m' \<Longrightarrow> results st = results st' \<Longrightarrow> settled st = settled st' \<Longrightarrow>
   same_shape (drive st m) (drive st' m')"
proof (induction arbitrary: st st' rule: list_all2_induct)
  case Nil
  show ?case by (simp add: same_shape_def)
next
  case (Cons x m y m')
  obtain i e where x: "x = (i, e)" by (cases x)
  obtain j e' where y: "y = (j, e')" by (cases y)
  from Cons.hyps(1) x y have ij: "j = i" and k: "same_kind e e'" by (simp_all add: same_turn_def)
  show ?case
  proof (cases e)
    case (Emit s)
    with k obtain s' where e': "e' = Emit s'" by (cases e') auto
    have "same_shape (drive (st\<lparr>statuses := (statuses st)[i := s]\<rparr>) m)
                     (drive (st'\<lparr>statuses := (statuses st')[i := s']\<rparr>) m')"
      using Cons.prems by (intro Cons.IH) simp_all
    then show ?thesis
      using x y ij Emit e' by (simp add: step_Emit same_shape_def del: step.simps)
  next
    case (Settle r)
    with k have e': "e' = Settle r" by (cases e') auto
    show ?thesis
    proof (cases r)
      case (Thrown msg)
      have "same_shape (drive (st\<lparr>settled := True\<rparr>) m) (drive (st'\<lparr>settled := True\<rparr>) m')"
        "same_shape (drive st m) (drive st' m')"
        using Cons.prems by (intro Cons.IH; simp)+
      then show ?thesis
        using x y ij Settle e' Thrown Cons.prems by (simp add: same_shape_def)
    next
      case (Returned v)
      define rs where "rs = (results st)[i := Fulfilled v]"
      have "same_shape (drive (st\<lparr>results := rs, settled := True\<rparr>) m)
                       (drive (st'\<lparr>results := rs, settled := True\<rparr>) m')"
        "same_shape (drive (st\<lparr>results := rs\<rparr>) m) (drive (st'\<lparr>results := rs\<rparr>) m')"
        using Cons.prems by (intro Cons.IH; simp)+
      then show ?thesis
        using x y ij Settle e' Returned Cons.prems same_shape_refl_finish [of rs]
        by (auto simp: Let_def rs_def intro: same_shape_append)
    qed
  qed
qed

lemma gather_shape:
  assumes "list_all2 same_shape children children'"
  shows "same_shape (gather sts plan children) (gather sts' plan children')"
proof -
  from assms have len: "length children = length children'" by (rule list_all2_lengthD)
  from assms have "list_all2 (list_all2 same_kind) children children'"
    by (simp add: same_shape_def [abs_def])
  then have "list_all2 same_turn (interleave plan children) (interleave plan children')"
    by (rule interleave_shape)
  then have "same_shape
      (drive \<lparr>statuses = sts, results = replicate (length children) Unsettled, settled = False\<rparr>
         (interleave plan children))
      (drive \<lparr>statuses = sts', results = replicate (length children') Unsettled, settled = False\<rparr>
         (interleave plan children'))"
    using len by (intro drive_shape) simp_all
  then show ?thesis
    using len same_shape_refl_finish [of "[]"] by (auto simp: gather_def)
qed

lemma those_rel:
  "\<forall>x\<in>set xs. rel_option R (f x) (g x) \<Longrightarrow>
   rel_option (list_all2 R) (those (map f xs)) (those (map g xs))"
proof (induction xs)
  case Nil
  show ?case by simp
next
  case (Cons x xs)
  then have "rel_option R (f x) (g x)"
    and "rel_option (list_all2 R) (those (map f xs)) (those (map g xs))" by simp_all
  then show ?case
    by (cases "f x"; cases "g x"; cases "those (map f xs)"; cases "those (map g xs)") simp_all
qed

lemma same_shape_Emit: "same_shape (Emit s # es) (Emit s' # es') \<longleftrightarrow> same_shape es es'"
  by (simp add: same_shape_def)

lemma same_shape_started:
  "same_shape es es' \<Longrightarrow> same_shape (Emit s # map Emit ss @ es) (Emit s' # map Emit ss @ es')"
  by (induction ss) (simp_all add: same_shape_def)

lemma shape_equivalent:
  "rel_option same_shape
     (translateMultiple n sched split pos callApi fragments instruction apiOptions)
     (translateMultiple_p0 n sched split pos callApi fragments instruction apiOptions)
   \<and> rel_option same_shape
     (translateOne n sched split pos callApi tx instruction apiOptions)
     (translateOne_p0 n sched split pos callApi tx instruction apiOptions)"
proof (induction n arbitrary: pos fragments tx)
  case 0
  show ?case by simp
next
  case (Suc n)
  have many: "rel_option same_shape
     (translateMultiple (Suc n) sched split pos callApi fragments instruction apiOptions)
     (translateMultiple_p0 (Suc n) sched split pos callApi fragments instruction apiOptions)"
  proof -
    let ?f = "\<lambda>(index, fragment).
                translateOne n sched split (pos @ [index]) callApi fragment instruction apiOptions"
    let ?g = "\<lambda>(index, fragment).
                translateOne_p0 n sched split (pos @ [index]) callApi fragment instruction apiOptions"
    have "\<forall>x\<in>set (enumerate 0 fragments). rel_option same_shape (?f x) (?g x)"
      using Suc by auto
    then have "rel_option (list_all2 same_shape) (those (map ?f (enumerate 0 fragments)))
                 (those (map ?g (enumerate 0 fragments)))"
      by (rule those_rel)
    then show ?thesis
      by (cases "those (map ?f (enumerate 0 fragments))";
          cases "those (map ?g (enumerate 0 fragments))")
         (simp_all add: gather_shape same_shape_Emit)
  qed
  have one: "rel_option same_shape
     (translateOne (Suc n) sched split pos callApi tx instruction apiOptions)
     (translateOne_p0 (Suc n) sched split pos callApi tx instruction apiOptions)"
  proof -
    obtain updates res where c: "callApi tx instruction apiOptions = (updates, res)"
      by (cases "callApi tx instruction apiOptions")
    note eq = translateOne_Suc [of callApi tx instruction apiOptions updates res n sched split pos, OF c]
    note eq' = translateOne_p0_Suc [of callApi tx instruction apiOptions updates res n sched split pos, OF c]
    have base: "same_shape (Emit s # map Emit ss @ [Settle r]) (Emit s' # map Emit ss @ [Settle r])"
      for s s' ss r
      using same_shape_started [of "[Settle r]" "[Settle r]"] by (simp add: same_shape_def)
    show ?thesis
    proof (cases res)
      case (Error msg)
      show ?thesis
      proof (cases "split tx 0")
        case None
        with Error show ?thesis unfolding eq eq' using base by simp
      next
        case (Some splitResult)
        from Suc have "rel_option same_shape
          (translateMultiple n sched split pos callApi splitResult instruction apiOptions)
          (translateMultiple_p0 n sched split pos callApi splitResult instruction apiOptions)"
          by blast
        then show ?thesis unfolding eq eq' using base Some Error
          by (cases "translateMultiple n sched split pos callApi splitResult instruction apiOptions";
              cases "translateMultiple_p0 n sched split pos callApi splitResult instruction apiOptions")
             (simp_all add: same_shape_started)
      qed
    next
      case (Pending t)
      then show ?thesis unfolding eq eq' using base by simp
    next
      case (Done t)
      then show ?thesis unfolding eq eq' using base by simp
    next
      case Waiting
      then show ?thesis unfolding eq eq' using base by simp
    qed
  qed
  from many one show ?case by blast
qed


section \<open>Properties of the orchestrator\<close>

lemma js_join_concat:
  "js_join sep xs = drop (length sep) (concat (map (\<lambda>x. sep @ js_text x) xs))"
  by (induction sep xs rule: js_join.induct) simp_all

lemma handleNewStatus_combine:
  "handleNewStatus index status sts = (sts[index := status], combine (sts[index := status]))"
  using js_join_concat [of "'', ''" "map statusToText (sts[index := status])"]
  by (simp add: handleNewStatus_def Let_def combine_def render_def comp_def numeral_2_eq_2)

lemma emitted_append: "emitted (es @ es') = emitted es @ emitted es'"
  by (induction es rule: emitted.induct) simp_all

lemma emitted_finish: "filter is_Pending (emitted (finish rs)) = []"
  by (simp add: finish_def Let_def)

lemma drive_composites:
  "filter is_Pending (emitted (drive st m)) = composites (statuses st) (updates_of m)"
proof (induction m arbitrary: st)
  case Nil
  show ?case by simp
next
  case (Cons x m)
  obtain i e where x: "x = (i, e)" by (cases x)
  show ?case
  proof (cases e)
    case (Emit s)
    have "step st (i, Emit s)
          = (st\<lparr>statuses := (statuses st)[i := s]\<rparr>, [Emit (combine ((statuses st)[i := s]))])"
      by (simp add: handleNewStatus_combine)
    then show ?thesis
      using x Emit Cons [of "st\<lparr>statuses := (statuses st)[i := s]\<rparr>"]
      by (simp add: combine_def del: step.simps)
  next
    case (Settle r)
    show ?thesis
    proof (cases r)
      case (Thrown msg)
      then show ?thesis
        using x Settle Cons [of st] Cons [of "st\<lparr>settled := True\<rparr>"] by simp
    next
      case (Returned v)
      then show ?thesis
        using x Settle Cons [of "st\<lparr>results := (results st)[i := Fulfilled v]\<rparr>"]
          Cons [of "st\<lparr>results := (results st)[i := Fulfilled v], settled := True\<rparr>"]
        by (simp add: Let_def emitted_append emitted_finish)
    qed
  qed
qed

text \<open>
  C7. Each status update inside \<^verbatim>\<open>translateMultiple\<close> overwrites the slot of its child and
  sends a composite status, which is always \<^verbatim>\<open>pending\<close> and whose token is the bracketed,
  comma-separated list of the rendering of every slot in the order of the indices: the
  \<^verbatim>\<open>pending\<close> statuses a call sends after its first one are the composites of the slot
  array after each update, whatever the array holds and in whatever order the updates arrive.
\<close>

theorem composite_status_updates:
  "handleNewStatus index status sts = (sts[index := status], combine (sts[index := status]))
   \<and> is_Pending (combine sts)
   \<and> lastToken (combine sts) = ''['' @ drop 2 (concat (map (\<lambda>s. '', '' @ render s) sts)) @ '']''
   \<and> filter is_Pending (emitted (drive st m)) = composites (statuses st) (updates_of m)"
  using handleNewStatus_combine drive_composites by (simp add: combine_def)

lemma settles_Returned: "settles es \<Longrightarrow> outcome es = Some (Returned v) \<Longrightarrow> completes es v"
  using outcome_completes outcome_fails unfolding settles_def by fastforce

lemma settles_Thrown: "settles es \<Longrightarrow> outcome es = Some (Thrown m) \<Longrightarrow> fails es"
  using outcome_completes unfolding settles_def by fastforce

lemma finish_Fulfilled:
  "finish (map Fulfilled rs)
   = [Emit (Done (js_join [CHR 0x0A, CHR 0x0A] rs)),
      Settle (Returned (Some (js_join [CHR 0x0A, CHR 0x0A] rs)))]"
  by (simp add: finish_def Let_def comp_def)

text \<open>
  C3. When every fragment's \<^verbatim>\<open>translateOne\<close> returns, \<^verbatim>\<open>translateMultiple\<close> of
  \<^verbatim>\<open>index.ts\<close> returns the results joined in the order of the fragment indices with a
  blank line between them, whatever the schedule: it sends \<^verbatim>\<open>pending\<close> statuses only,
  then exactly one \<^verbatim>\<open>done\<close> status carrying the joined text, and then returns that text.
\<close>

theorem translateMultiple_joins_in_order:
  assumes "length rs = length fragments"
    and "\<forall>i<length fragments. \<exists>es.
           translateOne n sched split (pos @ [i]) callApi (fragments ! i) instruction apiOptions = Some es
           \<and> outcome es = Some (Returned (rs ! i))"
  shows "\<exists>cs. (\<forall>c\<in>set cs. is_Pending c)
          \<and> translateMultiple (Suc n) sched split pos callApi fragments instruction apiOptions
              = Some (map Emit (Pending [] # cs @ [Done (js_join [CHR 0x0A, CHR 0x0A] rs)])
                      @ [Settle (Returned (Some (js_join [CHR 0x0A, CHR 0x0A] rs)))])"
proof -
  from assms(2) obtain f where f: "\<forall>i<length fragments.
       translateOne n sched split (pos @ [i]) callApi (fragments ! i) instruction apiOptions = Some (f i)
       \<and> outcome (f i) = Some (Returned (rs ! i))"
    by metis
  define children where "children = map f [0..<length fragments]"
  have len: "length children = length fragments" by (simp add: children_def)
  have ch: "\<forall>i<length fragments.
       translateOne n sched split (pos @ [i]) callApi (fragments ! i) instruction apiOptions
         = Some (children ! i)"
    using f by (simp add: children_def)
  have "completes (children ! i) (rs ! i)" if "i < length children" for i
  proof -
    from that have i: "i < length fragments" using len by simp
    with ch settles_streams [of n sched split callApi instruction apiOptions]
    have "settles (children ! i)" by blast
    moreover from f i have "outcome (children ! i) = Some (Returned (rs ! i))"
      by (simp add: children_def)
    ultimately show ?thesis by (rule settles_Returned)
  qed
  then have "\<forall>i<length children. completes (children ! i) (rs ! i)" by blast
  with assms(1) len obtain cs where
    cs: "gather (replicate (length fragments) Waiting) (sched pos) children
           = map Emit cs @ finish (map Fulfilled rs)" "\<forall>c\<in>set cs. is_Pending c"
    using gather_completes [of rs children "replicate (length fragments) Waiting" "sched pos"]
    by auto
  have "translateMultiple (Suc n) sched split pos callApi fragments instruction apiOptions
          = Some (Emit (Pending []) # gather (replicate (length fragments) Waiting) (sched pos) children)"
    using len ch by (rule translateMultiple_SucI)
  then have "translateMultiple (Suc n) sched split pos callApi fragments instruction apiOptions
              = Some (map Emit (Pending [] # cs @ [Done (js_join [CHR 0x0A, CHR 0x0A] rs)])
                      @ [Settle (Returned (Some (js_join [CHR 0x0A, CHR 0x0A] rs)))])"
    unfolding cs(1) finish_Fulfilled by simp
  with cs(2) show ?thesis by blast
qed

theorem translateMultiple_joins_in_order_witness:
  "\<exists>cs. (\<forall>c\<in>set cs. is_Pending c)
     \<and> translateMultiple 2 (\<lambda>p. [0, 1, 1, 0]) (\<lambda>t b. None) [] (\<lambda>t i (u::unit). ([], Done t))
          [''a'', ''b''] ''to French'' ()
        = Some (map Emit (Pending [] # cs @ [Done [CHR ''a'', CHR 0x0A, CHR 0x0A, CHR ''b'']])
                @ [Settle (Returned (Some [CHR ''a'', CHR 0x0A, CHR 0x0A, CHR ''b'']))])"
proof -
  have h1: "length [Some ''a'', Some ''b''] = length [''a'', ''b'']" by simp
  have h2: "\<forall>i<length [''a'', ''b'']. \<exists>es.
           translateOne 1 (\<lambda>p. [0, 1, 1, 0]) (\<lambda>t b. None) ([] @ [i]) (\<lambda>t i (u::unit). ([], Done t))
             ([''a'', ''b''] ! i) ''to French'' () = Some es
           \<and> outcome es = Some (Returned ([Some ''a'', Some ''b''] ! i))"
    by (simp add: numeral_2_eq_2 All_less_Suc)
  show ?thesis
    using translateMultiple_joins_in_order [OF h1 h2] by (simp add: numeral_2_eq_2)
qed

text \<open>
  C4. A failure whose message does not match the pattern is fatal. \<^verbatim>\<open>translateOne\<close> of
  \<^verbatim>\<open>index.ts\<close> throws it after the one call of the collaborator, without splitting and
  without another call. When one fragment's \<^verbatim>\<open>translateOne\<close> throws,
  \<^verbatim>\<open>translateMultiple\<close> throws the error of one of its fragments, whatever the schedule and
  whatever the other fragments return: it never returns a text and never sends \<^verbatim>\<open>done\<close>.
\<close>

theorem fatal_failure_propagates:
  "(callApi tx instruction apiOptions = (updates, Error msg) \<and> \<not> matches_size_or_stream msg \<longrightarrow>
      translateOne (Suc n) sched split pos callApi tx instruction apiOptions
        = Some (map Emit (Waiting # updates) @ [Settle (Thrown msg)]))
   \<and> (length children = length fragments
       \<and> (\<forall>j<length fragments.
            translateOne n sched split (pos @ [j]) callApi (fragments ! j) instruction apiOptions
              = Some (children ! j))
       \<and> i < length fragments \<and> outcome (children ! i) = Some (Thrown failure) \<longrightarrow>
      (\<exists>es msg' j.
         translateMultiple (Suc n) sched split pos callApi fragments instruction apiOptions = Some es
         \<and> outcome es = Some (Thrown msg')
         \<and> j < length fragments \<and> Settle (Thrown msg') \<in> set (children ! j)
         \<and> (\<forall>v. Settle (Returned v) \<notin> set es) \<and> (\<forall>t. Emit (Done t) \<notin> set es)))"
proof (intro conjI impI)
  assume "callApi tx instruction apiOptions = (updates, Error msg) \<and> \<not> matches_size_or_stream msg"
  then have c: "callApi tx instruction apiOptions = (updates, Error msg)"
    and nm: "\<not> matches_size_or_stream msg" by simp_all
  show "translateOne (Suc n) sched split pos callApi tx instruction apiOptions
        = Some (map Emit (Waiting # updates) @ [Settle (Thrown msg)])"
    unfolding translateOne_Suc [of callApi tx instruction apiOptions updates "Error msg" n sched split pos, OF c]
    using nm by simp
next
  assume a: "length children = length fragments
       \<and> (\<forall>j<length fragments.
            translateOne n sched split (pos @ [j]) callApi (fragments ! j) instruction apiOptions
              = Some (children ! j))
       \<and> i < length fragments \<and> outcome (children ! i) = Some (Thrown failure)"
  then have len: "length children = length fragments"
    and ch: "\<forall>j<length fragments.
            translateOne n sched split (pos @ [j]) callApi (fragments ! j) instruction apiOptions
              = Some (children ! j)"
    and i: "i < length children" and out: "outcome (children ! i) = Some (Thrown failure)"
    by simp_all
  from i len ch settles_streams [of n sched split callApi instruction apiOptions]
  have "settles (children ! i)" by metis
  then have fl: "fails (children ! i)" using out by (rule settles_Thrown)
  define g where "g = gather (replicate (length fragments) Waiting) (sched pos) children"
  from gather_fails [OF i fl, of "replicate (length fragments) Waiting" "sched pos"]
  obtain msg' j where ns: "no_success g"
    and j: "j < length children" "Settle (Thrown msg') \<in> set (children ! j)"
    and o: "outcome g = Some (Thrown msg')"
    unfolding g_def by blast
  have "translateMultiple (Suc n) sched split pos callApi fragments instruction apiOptions
          = Some (Emit (Pending []) # g)"
    unfolding g_def using len ch by (rule translateMultiple_SucI)
  moreover have "outcome (Emit (Pending []) # g) = Some (Thrown msg')" using o by simp
  moreover have "\<forall>v. Settle (Returned v) \<notin> set (Emit (Pending []) # g)"
    "\<forall>t. Emit (Done t) \<notin> set (Emit (Pending []) # g)"
    using ns by (simp_all add: no_success_def)
  ultimately show "\<exists>es msg' j.
         translateMultiple (Suc n) sched split pos callApi fragments instruction apiOptions = Some es
         \<and> outcome es = Some (Thrown msg')
         \<and> j < length fragments \<and> Settle (Thrown msg') \<in> set (children ! j)
         \<and> (\<forall>v. Settle (Returned v) \<notin> set es) \<and> (\<forall>t. Emit (Done t) \<notin> set es)"
    using j len by auto
qed

theorem fatal_failure_propagates_witness:
  "translateOne (Suc (Suc 0)) (\<lambda>p. [0, 1, 1, 0]) (\<lambda>t b. None) []
       (\<lambda>t i (u::unit). ([], if t = ''b'' then Error ''quota'' else Done t)) ''b'' ''to French'' ()
     = Some (map Emit [Waiting] @ [Settle (Thrown ''quota'')])
   \<and> (\<exists>es msg'. translateMultiple (Suc (Suc 0)) (\<lambda>p. [0, 1, 1, 0]) (\<lambda>t b. None) []
          (\<lambda>t i (u::unit). ([], if t = ''b'' then Error ''quota'' else Done t)) [''a'', ''b''] ''to French'' ()
        = Some es \<and> outcome es = Some (Thrown msg')
        \<and> (\<forall>v. Settle (Returned v) \<notin> set es) \<and> (\<forall>t. Emit (Done t) \<notin> set es))"
proof -
  let ?api = "\<lambda>t i (u::unit). ([]::StatusValue list, if t = ''b'' then Error ''quota'' else Done t)"
  let ?children = "[[Emit Waiting, Settle (Returned (Some ''a''))], [Emit Waiting, Settle (Thrown ''quota'')]]"
  have nm: "\<not> matches_size_or_stream ''quota''" by code_simp
  have h1: "?api ''b'' ''to French'' () = ([], Error ''quota'') \<and> \<not> matches_size_or_stream ''quota''"
    using nm by simp
  have h2: "length ?children = length [''a'', ''b'']
       \<and> (\<forall>j<length [''a'', ''b''].
            translateOne (Suc 0) (\<lambda>p. [0, 1, 1, 0]) (\<lambda>t b. None) ([] @ [j]) ?api ([''a'', ''b''] ! j) ''to French'' ()
              = Some (?children ! j))
       \<and> Suc 0 < length [''a'', ''b''] \<and> outcome (?children ! Suc 0) = Some (Thrown ''quota'')"
    using nm by (simp add: All_less_Suc)
  note T = fatal_failure_propagates [where callApi = ?api and tx = "''b''" and instruction = "''to French''"
      and apiOptions = "()" and updates = "[]" and msg = "''quota''" and n = "Suc 0" and sched = "\<lambda>p. [0, 1, 1, 0]"
      and split = "\<lambda>t b. None" and pos = "[]" and children = ?children
      and fragments = "[''a'', ''b'']" and i = "Suc 0" and failure = "''quota''"]
  note a = mp [OF T [THEN conjunct1] h1]
  note b = mp [OF T [THEN conjunct2] h2]
  from b obtain es msg' where
    "translateMultiple (Suc (Suc 0)) (\<lambda>p. [0, 1, 1, 0]) (\<lambda>t b. None) [] ?api [''a'', ''b''] ''to French'' () = Some es"
    "outcome es = Some (Thrown msg')" "\<forall>v. Settle (Returned v) \<notin> set es" "\<forall>t. Emit (Done t) \<notin> set es"
    by blast
  then have "\<exists>es msg'. translateMultiple (Suc (Suc 0)) (\<lambda>p. [0, 1, 1, 0]) (\<lambda>t b. None) [] ?api [''a'', ''b''] ''to French'' () = Some es
        \<and> outcome es = Some (Thrown msg')
        \<and> (\<forall>v. Settle (Returned v) \<notin> set es) \<and> (\<forall>t. Emit (Done t) \<notin> set es)"
    by blast
  with a show ?thesis by (rule conjI)
qed

text \<open>
  C2. When the collaborator fails with a message that matches the pattern, \<^verbatim>\<open>translateOne\<close>
  (in both source files) calls the splitter with the budget 0. If the splitter returns
  \<^verbatim>\<open>null\<close>, the call returns the original text and throws nothing; otherwise it goes on as
  \<^verbatim>\<open>translateMultiple\<close> on the fragments, whose statuses go to the same \<^verbatim>\<open>onStatus\<close>
  unchanged and whose outcome is the outcome of the call.
\<close>

theorem retry_by_bisection:
  assumes "callApi tx instruction apiOptions = (updates, Error msg)"
    and "matches_size_or_stream msg"
  shows "(split tx 0 = None \<longrightarrow>
            translateOne (Suc n) sched split pos callApi tx instruction apiOptions
              = Some (map Emit (Waiting # updates) @ [Settle (Returned (Some tx))])
          \<and> translateOne_p0 (Suc n) sched split pos callApi tx instruction apiOptions
              = Some (map Emit (Pending [] # updates) @ [Settle (Returned (Some tx))]))
       \<and> (\<forall>splitResult. split tx 0 = Some splitResult \<longrightarrow>
            translateOne (Suc n) sched split pos callApi tx instruction apiOptions
              = map_option ((@) (map Emit (Waiting # updates)))
                  (translateMultiple n sched split pos callApi splitResult instruction apiOptions)
          \<and> translateOne_p0 (Suc n) sched split pos callApi tx instruction apiOptions
              = map_option ((@) (map Emit (Pending [] # updates)))
                  (translateMultiple_p0 n sched split pos callApi splitResult instruction apiOptions))"
  unfolding translateOne_Suc [of callApi tx instruction apiOptions updates "Error msg" n sched split pos, OF assms(1)]
    translateOne_p0_Suc [of callApi tx instruction apiOptions updates "Error msg" n sched split pos, OF assms(1)]
  using assms(2) by simp

theorem retry_by_bisection_witness:
  "translateOne (Suc 0) (\<lambda>p. []) (\<lambda>t b. None) []
       (\<lambda>t i (u::unit). ([], if 2 < length t then Error ''Please reduce the length of the messages'' else Done t))
       ''long'' ''to French'' ()
     = Some (map Emit [Waiting] @ [Settle (Returned (Some ''long''))])
   \<and> translateOne (Suc (Suc (Suc 0))) (\<lambda>p. []) (\<lambda>t b. Some [''lo'', ''ng'']) []
       (\<lambda>t i (u::unit). ([], if 2 < length t then Error ''Please reduce the length of the messages'' else Done t))
       ''long'' ''to French'' ()
     = map_option ((@) (map Emit [Waiting]))
         (translateMultiple (Suc (Suc 0)) (\<lambda>p. []) (\<lambda>t b. Some [''lo'', ''ng'']) []
            (\<lambda>t i (u::unit). ([], if 2 < length t then Error ''Please reduce the length of the messages'' else Done t))
            [''lo'', ''ng''] ''to French'' ())"
proof -
  let ?api = "\<lambda>t i (u::unit). ([]::StatusValue list,
      if 2 < length t then Error ''Please reduce the length of the messages'' else Done t)"
  have h1: "?api ''long'' ''to French'' () = ([], Error ''Please reduce the length of the messages'')"
    by simp
  have h2: "matches_size_or_stream ''Please reduce the length of the messages''" by code_simp
  note none = retry_by_bisection [where callApi = ?api and split = "\<lambda>t b. None" and n = 0, OF h1 h2]
  note some = retry_by_bisection [where callApi = ?api and split = "\<lambda>t b. Some [''lo'', ''ng'']"
      and n = "Suc (Suc 0)", OF h1 h2]
  from none have a: "translateOne (Suc 0) (\<lambda>p. []) (\<lambda>t b. None) [] ?api ''long'' ''to French'' ()
     = Some (map Emit [Waiting] @ [Settle (Returned (Some ''long''))])"
    by blast
  from some have b: "translateOne (Suc (Suc (Suc 0))) (\<lambda>p. []) (\<lambda>t b. Some [''lo'', ''ng'']) []
       ?api ''long'' ''to French'' ()
     = map_option ((@) (map Emit [Waiting]))
         (translateMultiple (Suc (Suc 0)) (\<lambda>p. []) (\<lambda>t b. Some [''lo'', ''ng'']) []
            ?api [''lo'', ''ng''] ''to French'' ())"
    by blast
  from a b show ?thesis by (rule conjI)
qed

text \<open>
  C10. With the same collaborator, splitter and schedule, \<^verbatim>\<open>translateMultiple\<close> and
  \<^verbatim>\<open>translateOne\<close> of \<^verbatim>\<open>index.ts\<close> return the same text, or throw the same error, as the
  two functions of the second source file, and need the same fuel; their event streams
  agree event by event up to the statuses they send.
\<close>

theorem variants_result_equivalent:
  "rel_option same_shape
     (translateMultiple n sched split pos callApi fragments instruction apiOptions)
     (translateMultiple_p0 n sched split pos callApi fragments instruction apiOptions)
   \<and> rel_option same_shape
     (translateOne n sched split pos callApi tx instruction apiOptions)
     (translateOne_p0 n sched split pos callApi tx instruction apiOptions)
   \<and> map_option outcome (translateMultiple n sched split pos callApi fragments instruction apiOptions)
     = map_option outcome (translateMultiple_p0 n sched split pos callApi fragments instruction apiOptions)
   \<and> map_option outcome (translateOne n sched split pos callApi tx instruction apiOptions)
     = map_option outcome (translateOne_p0 n sched split pos callApi tx instruction apiOptions)"
proof -
  have "map_option outcome a = map_option outcome b" if "rel_option same_shape a b" for a b
    using that by (cases a; cases b) (simp_all add: same_shape_outcome)
  with shape_equivalent [of n sched split pos callApi fragments instruction apiOptions tx]
  show ?thesis by simp
qed

text \<open>
  The first status of \<^verbatim>\<open>translateOne\<close>, sent before the collaborator is called: in the
  second source file it is \<^verbatim>\<open>pending\<close> with an empty token, in \<^verbatim>\<open>index.ts\<close> it is the object
  \<^verbatim>\<open>{ status: 'waiting' }\<close>.
\<close>

lemma translateOne_p0_starts_pending:
  "translateOne_p0 n sched split pos callApi tx instruction apiOptions = Some es \<Longrightarrow>
   \<exists>rest. es = Emit (Pending []) # rest"
proof (cases n)
  case 0
  then show "translateOne_p0 n sched split pos callApi tx instruction apiOptions = Some es \<Longrightarrow>
    \<exists>rest. es = Emit (Pending []) # rest" by simp
next
  case (Suc k)
  obtain updates res where c: "callApi tx instruction apiOptions = (updates, res)"
    by (cases "callApi tx instruction apiOptions")
  assume "translateOne_p0 n sched split pos callApi tx instruction apiOptions = Some es"
  then show "\<exists>rest. es = Emit (Pending []) # rest"
    unfolding Suc translateOne_p0_Suc [of callApi tx instruction apiOptions updates res k sched split pos, OF c]
    by (auto split: StatusValue.splits option.splits if_splits)
qed

lemma translateOne_starts_waiting:
  "translateOne n sched split pos callApi tx instruction apiOptions = Some es \<Longrightarrow>
   \<exists>rest. es = Emit Waiting # rest"
proof (cases n)
  case 0
  then show "translateOne n sched split pos callApi tx instruction apiOptions = Some es \<Longrightarrow>
    \<exists>rest. es = Emit Waiting # rest" by simp
next
  case (Suc k)
  obtain updates res where c: "callApi tx instruction apiOptions = (updates, res)"
    by (cases "callApi tx instruction apiOptions")
  assume "translateOne n sched split pos callApi tx instruction apiOptions = Some es"
  then show "\<exists>rest. es = Emit Waiting # rest"
    unfolding Suc translateOne_Suc [of callApi tx instruction apiOptions updates res k sched split pos, OF c]
    by (auto split: StatusValue.splits option.splits if_splits)
qed

text \<open>
  C6. The first status of \<^verbatim>\<open>translateOne\<close> should be \<^verbatim>\<open>pending\<close> with an empty token. On
  the text \<^verbatim>\<open>Hello\<close>, with a collaborator that streams one token and succeeds,
  \<^verbatim>\<open>translateOne\<close> of the second source file sends it, and \<^verbatim>\<open>translateOne\<close> of \<^verbatim>\<open>index.ts\<close>
  sends \<^verbatim>\<open>{ status: 'waiting' }\<close> instead, which is no value of the type \<^verbatim>\<open>Status\<close>.
\<close>

theorem translateOne_first_status:
  "translateOne 1 (\<lambda>p. []) (\<lambda>t b. None) [] (\<lambda>t i (u::unit). ([Pending ''Bon''], Done ''Bonjour''))
       ''Hello'' ''to French'' ()
     = Some [Emit Waiting, Emit (Pending ''Bon''), Settle (Returned (Some ''Bonjour''))]
   \<and> translateOne_p0 1 (\<lambda>p. []) (\<lambda>t b. None) [] (\<lambda>t i (u::unit). ([Pending ''Bon''], Done ''Bonjour''))
       ''Hello'' ''to French'' ()
     = Some [Emit (Pending []), Emit (Pending ''Bon''), Settle (Returned (Some ''Bonjour''))]
   \<and> Waiting \<noteq> Pending [] \<and> \<not> declared Waiting"
  by simp

text \<open>
  C9. The slots of \<^verbatim>\<open>translateMultiple\<close> should only hold values of the type \<^verbatim>\<open>Status\<close>. In
  \<^verbatim>\<open>index.ts\<close>, on two fragments that the collaborator translates at once, the slots
  start as \<^verbatim>\<open>{ status: 'waiting' }\<close> and are overwritten with it by the first status of each
  \<^verbatim>\<open>translateOne\<close>; \<^verbatim>\<open>statusToText\<close> returns \<^verbatim>\<open>undefined\<close> on them, and the composite line
  is \<^verbatim>\<open>[, ]\<close>. The second source file, on the same input, shows two waiting glyphs.
\<close>

theorem slots_hold_waiting:
  "translateMultiple 2 (\<lambda>p. [0, 1]) (\<lambda>t b. None) [] (\<lambda>t i (u::unit). ([], Done t))
       [''a'', ''b''] ''to French'' ()
     = Some [Emit (Pending []), Emit (Pending ''[, ]''), Emit (Pending ''[, ]''),
             Emit (Done [CHR ''a'', CHR 0x0A, CHR 0x0A, CHR ''b'']),
             Settle (Returned (Some [CHR ''a'', CHR 0x0A, CHR 0x0A, CHR ''b'']))]
   \<and> translateMultiple_p0 2 (\<lambda>p. [0, 1]) (\<lambda>t b. None) [] (\<lambda>t i (u::unit). ([], Done t))
       [''a'', ''b''] ''to French'' ()
     = Some [Emit (Pending []),
             Emit (Pending (''['' @ glyph_waiting @ '', '' @ glyph_waiting @ '']'')),
             Emit (Pending (''['' @ glyph_waiting @ '', '' @ glyph_waiting @ '']'')),
             Emit (Done [CHR ''a'', CHR 0x0A, CHR 0x0A, CHR ''b'']),
             Settle (Returned (Some [CHR ''a'', CHR 0x0A, CHR 0x0A, CHR ''b'']))]
   \<and> handleNewStatus 0 Waiting (replicate 2 Waiting) = ([Waiting, Waiting], Pending ''[, ]'')
   \<and> map statusToText [Waiting, Waiting] = [None, None]
   \<and> \<not> declared Waiting"
  by (simp add: gather_def handleNewStatus_def finish_def all_fulfilled_def numeral_2_eq_2 Let_def)

section \<open>Splitting at a blank line\<close>

lemma split_lines_nonempty: "split_lines s \<noteq> []"
  by (induction s) (auto split: list.splits)

lemma join_split_lines: "join_lines (split_lines s) = s"
proof (induction s)
  case Nil
  show ?case by simp
next
  case (Cons c cs)
  obtain l ls where ls: "split_lines cs = l # ls"
    using split_lines_nonempty [of cs] by (cases "split_lines cs") auto
  show ?case
  proof (cases "c = CHR 0x0A")
    case True
    with Cons ls show ?thesis by simp
  next
    case False
    with Cons ls show ?thesis by (cases ls) simp_all
  qed
qed

lemma join_lines_append:
  "xs \<noteq> [] \<Longrightarrow> ys \<noteq> [] \<Longrightarrow> join_lines (xs @ ys) = join_lines xs @ CHR 0x0A # join_lines ys"
proof (induction xs rule: join_lines.induct)
  case 1
  then show ?case by simp
next
  case (2 l)
  then show ?case by (cases ys) simp_all
next
  case (3 l l' ls)
  then show ?case by simp
qed

lemma join_lines_blank: "join_lines ([] # replicate m []) = replicate m (CHR 0x0A)"
  by (induction m) simp_all

lemma nearest_None: "nearest mid bs = None \<longleftrightarrow> bs = []"
  by (induction bs) (auto split: option.splits)

lemma nearest_Some: "nearest mid bs = Some b \<Longrightarrow> b \<in> set bs"
  by (induction bs arbitrary: b) (auto split: option.splits if_splits)

lemma boundary_rejoin:
  assumes "(i, j) \<in> set (boundaries ls)"
  shows "join_lines ls
         = join_lines (take i ls) @ replicate (j - i + 2) (CHR 0x0A) @ join_lines (drop (Suc j) ls)"
proof -
  from assms have i: "0 < i" "i \<le> j" "Suc j < length ls"
    and blank: "\<forall>k\<in>{i..j}. ls ! k = []"
    by (auto simp: boundaries_def list_all_iff)
  define m where "m = j - i"
  have mid: "take (Suc m) (drop i ls) = replicate (Suc m) []"
  proof (rule nth_equalityI)
    show "length (take (Suc m) (drop i ls)) = length (replicate (Suc m) ([]::string))"
      using i by (simp add: m_def)
  next
    fix k assume "k < length (take (Suc m) (drop i ls))"
    then have k: "k < Suc m" by simp
    then have "i + k \<in> {i..j}" using i by (auto simp: m_def)
    with blank have "ls ! (i + k) = []" by blast
    moreover have "take (Suc m) (drop i ls) ! k = ls ! (i + k)" using k i by (simp add: m_def)
    moreover have "replicate (Suc m) ([]::string) ! k = []" using k by (rule nth_replicate)
    ultimately show "take (Suc m) (drop i ls) ! k = replicate (Suc m) [] ! k" by simp
  qed
  have "ls = take i ls @ drop i ls" by simp
  also have "drop i ls = take (Suc m) (drop i ls) @ drop (Suc m) (drop i ls)"
    by (rule append_take_drop_id [symmetric])
  also have "drop (Suc m) (drop i ls) = drop (Suc j) ls" using i by (simp add: m_def)
  finally have ls: "ls = take i ls @ replicate (Suc m) [] @ drop (Suc j) ls" using mid by simp
  have ne: "take i ls \<noteq> []" "drop (Suc j) ls \<noteq> []" using i by auto
  have "join_lines ls = join_lines (take i ls @ replicate (Suc m) [] @ drop (Suc j) ls)"
    using ls by simp
  also have "\<dots> = join_lines (take i ls) @ CHR 0x0A #
                    join_lines (replicate (Suc m) [] @ drop (Suc j) ls)"
    using ne by (intro join_lines_append) simp_all
  also have "join_lines (replicate (Suc m) [] @ drop (Suc j) ls)
             = join_lines (replicate (Suc m) []) @ CHR 0x0A # join_lines (drop (Suc j) ls)"
    using ne by (intro join_lines_append) simp_all
  finally have "join_lines ls = join_lines (take i ls)
      @ (CHR 0x0A # replicate m (CHR 0x0A) @ [CHR 0x0A]) @ join_lines (drop (Suc j) ls)"
    by (simp add: join_lines_blank)
  moreover have "replicate (j - i + 2) (CHR 0x0A) = CHR 0x0A # replicate m (CHR 0x0A) @ [CHR 0x0A]"
    by (simp add: m_def replicate_append_same)
  ultimately show ?thesis by simp
qed

lemma bisection_shorter:
  assumes "splitStringAtBlankLines0 tx = Some fragments" and "f \<in> set fragments"
  shows "length f < length tx"
proof -
  from assms(1) obtain i j where
    n: "nearest (length (split_lines tx) div 2) (boundaries (split_lines tx)) = Some (i, j)"
    and f: "fragments = [join_lines (take i (split_lines tx)), join_lines (drop (Suc j) (split_lines tx))]"
    by (auto simp: splitStringAtBlankLines0_def Let_def split: option.splits)
  from n have "(i, j) \<in> set (boundaries (split_lines tx))" by (rule nearest_Some)
  from boundary_rejoin [OF this] have "tx = join_lines (take i (split_lines tx))
      @ replicate (j - i + 2) (CHR 0x0A) @ join_lines (drop (Suc j) (split_lines tx))"
    by (simp add: join_split_lines)
  then have "length tx = length (join_lines (take i (split_lines tx))) + (j - i + 2)
      + length (join_lines (drop (Suc j) (split_lines tx)))"
    by (metis length_append length_replicate add.assoc)
  with f assms(2) show ?thesis by auto
qed

text \<open>
  C5. \<^verbatim>\<open>splitStringAtBlankLines(text, 0)\<close> returns \<^verbatim>\<open>null\<close> exactly when the text has no
  blank-line boundary, and otherwise exactly two fragments; the text is the first
  fragment, the newlines removed at the boundary (at least two) and the second fragment.
\<close>

theorem bisection_rejoins:
  "(splitStringAtBlankLines0 text = None \<longleftrightarrow> boundaries (split_lines text) = [])
   \<and> (\<forall>fragments. splitStringAtBlankLines0 text = Some fragments \<longrightarrow>
        (\<exists>a b k. fragments = [a, b] \<and> 2 \<le> k \<and> text = a @ replicate k (CHR 0x0A) @ b))"
proof (intro conjI allI impI)
  show "splitStringAtBlankLines0 text = None \<longleftrightarrow> boundaries (split_lines text) = []"
    by (auto simp: splitStringAtBlankLines0_def Let_def nearest_None split: option.splits)
next
  fix fragments
  assume "splitStringAtBlankLines0 text = Some fragments"
  then obtain i j where n: "nearest (length (split_lines text) div 2) (boundaries (split_lines text)) = Some (i, j)"
    and f: "fragments = [join_lines (take i (split_lines text)), join_lines (drop (Suc j) (split_lines text))]"
    by (auto simp: splitStringAtBlankLines0_def Let_def split: option.splits)
  from n have "(i, j) \<in> set (boundaries (split_lines text))" by (rule nearest_Some)
  from boundary_rejoin [OF this] have "text = join_lines (take i (split_lines text))
      @ replicate (j - i + 2) (CHR 0x0A) @ join_lines (drop (Suc j) (split_lines text))"
    by (simp add: join_split_lines)
  with f show "\<exists>a b k. fragments = [a, b] \<and> 2 \<le> k \<and> text = a @ replicate k (CHR 0x0A) @ b"
    by (intro exI [of _ "join_lines (take i (split_lines text))"]
              exI [of _ "join_lines (drop (Suc j) (split_lines text))"] exI [of _ "j - i + 2"]) simp
qed

theorem bisection_rejoins_witness:
  "splitStringAtBlankLines0 (''line one'' @ [CHR 0x0A, CHR 0x0A] @ ''line two'')
     = Some [''line one'', ''line two'']
   \<and> (\<exists>a b k. [''line one'', ''line two''] = [a, b] \<and> 2 \<le> k
        \<and> ''line one'' @ [CHR 0x0A, CHR 0x0A] @ ''line two'' = a @ replicate k (CHR 0x0A) @ b)"
proof -
  have e: "splitStringAtBlankLines0 (''line one'' @ [CHR 0x0A, CHR 0x0A] @ ''line two'')
     = Some [''line one'', ''line two'']" by code_simp
  from bisection_rejoins [of "''line one'' @ [CHR 0x0A, CHR 0x0A] @ ''line two''"] e
  have "\<exists>a b k. [''line one'', ''line two''] = [a, b] \<and> 2 \<le> k
        \<and> ''line one'' @ [CHR 0x0A, CHR 0x0A] @ ''line two'' = a @ replicate k (CHR 0x0A) @ b"
    by blast
  with e show ?thesis by (rule conjI)
qed

text \<open>A text without a blank line, such as a single marker, cannot be split.\<close>

lemma null_split_example:
  "splitStringAtBlankLines0 ''%CODEBLOCK-0'' = None"
  by code_simp

section \<open>Shielding code blocks\<close>

lemma is_prefix_iff: "is_prefix m s \<longleftrightarrow> (\<exists>t. s = m @ t)"
  by (induction m s rule: is_prefix.induct) auto

lemma occurs_in_iff: "occurs_in m s \<longleftrightarrow> (\<exists>a b. s = a @ m @ b)"
proof (induction s)
  case Nil
  show ?case by (auto simp: is_prefix_iff)
next
  case (Cons c cs)
  show ?case
  proof
    assume "occurs_in m (c # cs)"
    then consider "is_prefix m (c # cs)" | "occurs_in m cs" by auto
    then show "\<exists>a b. c # cs = a @ m @ b"
    proof cases
      case 1
      then obtain t where "c # cs = [] @ m @ t" by (auto simp: is_prefix_iff)
      then show ?thesis by blast
    next
      case 2
      with Cons obtain a b where "cs = a @ m @ b" by blast
      then have "c # cs = (c # a) @ m @ b" by simp
      then show ?thesis by blast
    qed
  next
    assume "\<exists>a b. c # cs = a @ m @ b"
    then obtain a b where ab: "c # cs = a @ m @ b" by blast
    show "occurs_in m (c # cs)"
    proof (cases a)
      case Nil
      with ab have "is_prefix m (c # cs)" by (auto simp: is_prefix_iff)
      then show ?thesis by simp
    next
      case (Cons x a')
      with ab have "cs = a' @ m @ b" by simp
      with Cons.IH show ?thesis by auto
    qed
  qed
qed

lemma replace_first_here:
  "\<forall>Q1 Q2. Q = Q1 @ Q2 \<and> Q2 \<noteq> [] \<longrightarrow> \<not> is_prefix m (Q2 @ m @ R) \<Longrightarrow>
   replace_first m r (Q @ m @ R) = Q @ r @ R"
proof (induction Q)
  case Nil
  show ?case
  proof (cases "m @ R")
    case Nil
    then show ?thesis by simp
  next
    case (Cons x xs)
    have "is_prefix m (m @ R)" by (auto simp: is_prefix_iff)
    with Cons have "replace_first m r (m @ R) = r @ drop (length m) (m @ R)"
      by (metis replace_first.simps(2))
    then show ?thesis by simp
  qed
next
  case (Cons q Q)
  from Cons.prems have "\<not> is_prefix m ((q # Q) @ m @ R)" by blast
  moreover have "\<forall>Q1 Q2. Q = Q1 @ Q2 \<and> Q2 \<noteq> [] \<longrightarrow> \<not> is_prefix m (Q2 @ m @ R)"
  proof (intro allI impI)
    fix Q1 Q2 assume "Q = Q1 @ Q2 \<and> Q2 \<noteq> []"
    then have "q # Q = (q # Q1) @ Q2 \<and> Q2 \<noteq> []" by simp
    with Cons.prems show "\<not> is_prefix m (Q2 @ m @ R)" by blast
  qed
  ultimately show ?case using Cons.IH by simp
qed

lemma no_straddle:
  assumes m: "m = c # ms" "c \<notin> set ms"
    and fresh: "\<not> occurs_in m Q"
    and Q: "Q = Q1 @ Q2" "Q2 \<noteq> []"
  shows "\<not> is_prefix m (Q2 @ m @ R)"
proof
  assume "is_prefix m (Q2 @ m @ R)"
  then obtain t where t: "Q2 @ m @ R = m @ t" by (auto simp: is_prefix_iff)
  then consider us where "Q2 = m @ us" | us where "Q2 @ us = m" "m @ R = us @ t"
    by (auto simp: append_eq_append_conv2)
  then show False
  proof cases
    case 1
    with Q have "Q = Q1 @ m @ us" by simp
    with fresh show False by (auto simp: occurs_in_iff)
  next
    case 2
    show False
    proof (cases us)
      case Nil
      with 2 Q have "Q = Q1 @ m @ []" by simp
      with fresh show False unfolding occurs_in_iff by blast
    next
      case (Cons u us')
      with 2(2) m(1) have "u = c" by simp
      from Q(2) obtain x Q2' where "Q2 = x # Q2'" by (cases Q2) auto
      with 2(1) m(1) Cons have "ms = Q2' @ u # us'" by simp
      with \<open>u = c\<close> m(2) show False by simp
    qed
  qed
qed

lemma decimal_digits: "x \<in> set (decimal n) \<Longrightarrow> 48 \<le> (of_char x :: nat) \<and> (of_char x :: nat) \<le> 57"
proof (induction n rule: decimal.induct)
  case (1 n)
  show ?case
  proof (cases "n < 10")
    case True
    with 1(2) have "x = char_of (48 + n)" by (simp add: decimal.simps [of n])
    with True show ?thesis by simp
  next
    case False
    with 1(2) consider "x \<in> set (decimal (n div 10))" | "x = char_of (48 + n mod 10)"
      by (auto simp: decimal.simps [of n])
    then show ?thesis
    proof cases
      case 1
      with False "1.IH" show ?thesis by simp
    next
      case 2
      have "n mod 10 < 10" by simp
      with 2 show ?thesis by (simp add: mod_mod_cancel)
    qed
  qed
qed

lemma marker_head: "marker i = CHR ''%'' # (''CODEBLOCK-'' @ decimal i)"
  and marker_tail: "CHR ''%'' \<notin> set (''CODEBLOCK-'' @ decimal i)"
proof -
  show "marker i = CHR ''%'' # (''CODEBLOCK-'' @ decimal i)" by (simp add: marker_def)
  have "CHR ''%'' \<notin> set (decimal i)" using decimal_digits [of "CHR ''%''" i] by auto
  then show "CHR ''%'' \<notin> set (''CODEBLOCK-'' @ decimal i)" by simp
qed

lemma next_id_fresh: "\<not> occurs_in (marker (next_id d n)) d"
  by (induction d n rule: next_id.induct) (simp add: next_id.simps)

lemma replace_marker:
  assumes "\<not> occurs_in (marker i) (Q @ T)"
  shows "replace_first (marker i) r (Q @ marker i @ R) = Q @ r @ R"
proof (rule replace_first_here, intro allI impI)
  fix Q1 Q2 assume Q: "Q = Q1 @ Q2 \<and> Q2 \<noteq> []"
  have "\<not> occurs_in (marker i) Q"
  proof
    assume "occurs_in (marker i) Q"
    then obtain a b where "Q = a @ marker i @ b" by (auto simp: occurs_in_iff)
    then have "Q @ T = a @ marker i @ (b @ T)" by simp
    with assms show False unfolding occurs_in_iff by blast
  qed
  with Q show "\<not> is_prefix (marker i) (Q2 @ marker i @ R)"
    using no_straddle [OF marker_head marker_tail] by blast
qed

lemma shield_restore:
  "Q @ concat (map text_of segs) = d \<Longrightarrow>
   restoreCodeBlocks (Q @ fst (shield d n segs)) (snd (shield d n segs)) = d"
proof (induction d n segs arbitrary: Q rule: shield.induct)
  case (1 d n)
  then show ?case by simp
next
  case (2 d n p segs)
  from "2.prems" have "(Q @ p) @ concat (map text_of segs) = d" by simp
  from "2.IH" [OF this] show ?case by (cases "shield d n segs") simp
next
  case (3 d n c segs)
  define i where "i = next_id d n"
  obtain out blocks where sh: "shield d (Suc i) segs = (out, blocks)"
    by (cases "shield d (Suc i) segs")
  from "3.prems" have d: "(Q @ c) @ concat (map text_of segs) = d" by simp
  have "\<not> occurs_in (marker i) (Q @ (c @ concat (map text_of segs)))"
    using next_id_fresh [of d n] "3.prems" by (simp add: i_def)
  then have "replace_first (marker i) c (Q @ marker i @ out) = Q @ c @ out"
    by (rule replace_marker)
  moreover from "3.IH" [OF i_def d] sh
  have "restoreCodeBlocks ((Q @ c) @ out) blocks = d" by simp
  ultimately show ?case using sh by (simp add: i_def [symmetric])
qed

lemma find_close_append: "find_close s = Some (b, r) \<Longrightarrow> b @ r = s"
  by (induction s arbitrary: b) (auto split: if_splits)

lemma text_of_add_prose: "concat (map text_of (add_prose c segs)) = c # concat (map text_of segs)"
  by (induction c segs rule: add_prose.induct) simp_all

lemma segments_flatten: "concat (map text_of (segments b d)) = d"
proof (induction b d rule: segments.induct)
  case (1 line_start)
  show ?case by simp
next
  case (2 line_start c cs)
  show ?case
  proof (cases "line_start \<and> is_prefix ''```'' (c # cs)")
    case False
    from "2.IH"(2) [OF False] False show ?thesis
      by (auto simp add: text_of_add_prose simp del: is_prefix.simps)
  next
    case True
    then obtain t where t: "c # cs = ''```'' @ t" by (auto simp: is_prefix_iff)
    then have dr: "drop 3 (c # cs) = t" by simp
    show ?thesis
    proof (cases "find_close (drop 3 (c # cs))")
      case None
      with True show ?thesis by (simp del: is_prefix.simps)
    next
      case (Some br)
      obtain block rest where br: "(block, rest) = br" by (cases br) auto
      with Some dr have "block @ rest = t" by (simp add: find_close_append)
      moreover have "concat (map text_of (segments False rest)) = rest"
        using True Some br by (rule "2.IH"(1))
      ultimately show ?thesis using True Some br [symmetric] t
        by (simp del: is_prefix.simps)
    qed
  qed
qed

text \<open>
  C1. For every document, restoring the shielded text with the table of blocks that the
  extraction produced gives the document back.
\<close>

theorem shield_round_trip:
  "restoreCodeBlocks (output_text (replaceCodeBlocks d)) (codeBlocks (replaceCodeBlocks d)) = d"
proof -
  have "[] @ concat (map text_of (segments True d)) = d" by (simp add: segments_flatten)
  from shield_restore [OF this, of 0] show ?thesis
    by (cases "shield d 0 (segments True d)") (simp add: replaceCodeBlocks_def)
qed

text \<open>
  The scenario of the specification: one fenced block between two lines of prose. And why
  the id is chosen afresh: a marker that also occurs in the prose is restored in the wrong
  place.
\<close>

lemma shield_example:
  "replaceCodeBlocks (''Intro'' @ [CHR 0x0A] @ ''```code'' @ [CHR 0x0A] @ ''X'' @ [CHR 0x0A] @ ''```'' @ [CHR 0x0A] @ ''Outro'')
     = \<lparr>output_text = ''Intro'' @ [CHR 0x0A] @ ''%CODEBLOCK-0'' @ [CHR 0x0A] @ ''Outro'',
        codeBlocks = [Placeholder 0 (''```code'' @ [CHR 0x0A] @ ''X'' @ [CHR 0x0A] @ ''```'')]\<rparr>"
  by code_simp

lemma colliding_marker_breaks_restore:
  "restoreCodeBlocks (''see %CODEBLOCK-0 and '' @ marker 0) [Placeholder 0 ''X'']
     = ''see X and %CODEBLOCK-0''"
  by code_simp

section \<open>Enough fuel\<close>

text \<open>
  When every fragment the splitter returns is shorter than the text it split, the
  recursion ends: a fuel of twice the length of the text plus two suffices. This holds for
  the splitter modelled above, whatever the collaborator answers and whatever the schedule.
\<close>

lemma enough_fuel:
  assumes shorter: "\<And>t fs f. split t 0 = Some fs \<Longrightarrow> f \<in> set fs \<Longrightarrow> length f < length t"
  shows "(\<forall>pos fragments. 0 < n \<and> (\<forall>f\<in>set fragments. 2 * length f + 2 < n) \<longrightarrow>
            translateMultiple n sched split pos callApi fragments instruction apiOptions \<noteq> None)
       \<and> (\<forall>pos tx. 2 * length tx + 1 < n \<longrightarrow>
            translateOne n sched split pos callApi tx instruction apiOptions \<noteq> None)"
proof (induction n)
  case 0
  show ?case by simp
next
  case (Suc n)
  have many: "translateMultiple (Suc n) sched split pos callApi fragments instruction apiOptions \<noteq> None"
    if "\<forall>f\<in>set fragments. 2 * length f + 2 < Suc n" for pos fragments
  proof -
    have "\<forall>i<length fragments. \<exists>es.
        translateOne n sched split (pos @ [i]) callApi (fragments ! i) instruction apiOptions = Some es"
    proof (intro allI impI)
      fix i assume "i < length fragments"
      then have "fragments ! i \<in> set fragments" by simp
      with that have "2 * length (fragments ! i) + 2 < Suc n" by blast
      then have "2 * length (fragments ! i) + 1 < n" by simp
      with Suc have "translateOne n sched split (pos @ [i]) callApi (fragments ! i) instruction apiOptions \<noteq> None"
        by blast
      then show "\<exists>es. translateOne n sched split (pos @ [i]) callApi (fragments ! i) instruction apiOptions = Some es"
        by auto
    qed
    then obtain g where g: "\<forall>i<length fragments.
        translateOne n sched split (pos @ [i]) callApi (fragments ! i) instruction apiOptions = Some (g i)"
      by metis
    have "translateMultiple (Suc n) sched split pos callApi fragments instruction apiOptions
          = Some (Emit (Pending []) # gather (replicate (length fragments) Waiting) (sched pos)
                    (map g [0..<length fragments]))"
      by (rule translateMultiple_SucI) (use g in simp_all)
    then show ?thesis by simp
  qed
  have one: "translateOne (Suc n) sched split pos callApi tx instruction apiOptions \<noteq> None"
    if "2 * length tx + 1 < Suc n" for pos tx
  proof -
    obtain updates res where c: "callApi tx instruction apiOptions = (updates, res)"
      by (cases "callApi tx instruction apiOptions")
    note eq = translateOne_Suc [of callApi tx instruction apiOptions updates res n sched split pos, OF c]
    show ?thesis
    proof (cases res)
      case (Error msg)
      show ?thesis
      proof (cases "split tx 0")
        case None
        with Error show ?thesis unfolding eq by simp
      next
        case (Some fs)
        have "\<forall>f\<in>set fs. 2 * length f + 2 < n"
        proof
          fix f assume "f \<in> set fs"
          with Some have "length f < length tx" by (rule shorter)
          with that show "2 * length f + 2 < n" by simp
        qed
        moreover from that have "0 < n" by simp
        ultimately have "translateMultiple n sched split pos callApi fs instruction apiOptions \<noteq> None"
          using Suc by blast
        with Error Some show ?thesis unfolding eq by simp
      qed
    next
      case (Pending t)
      then show ?thesis unfolding eq by simp
    next
      case (Done t)
      then show ?thesis unfolding eq by simp
    next
      case Waiting
      then show ?thesis unfolding eq by simp
    qed
  qed
  from many one show ?case by blast
qed

lemma translateOne_settles_with_bisection:
  "\<exists>es r. translateOne (2 * length tx + 2) sched (\<lambda>t budget. splitStringAtBlankLines0 t) pos callApi
             tx instruction apiOptions = Some es \<and> outcome es = Some r"
proof -
  have "translateOne (2 * length tx + 2) sched (\<lambda>t budget. splitStringAtBlankLines0 t) pos callApi
             tx instruction apiOptions \<noteq> None"
    using enough_fuel [of "\<lambda>t budget. splitStringAtBlankLines0 t" "2 * length tx + 2" sched callApi instruction apiOptions]
      bisection_shorter by simp
  then obtain es where es: "translateOne (2 * length tx + 2) sched (\<lambda>t budget. splitStringAtBlankLines0 t) pos callApi
             tx instruction apiOptions = Some es" by auto
  with settles_streams [of "2 * length tx + 2" sched "\<lambda>t budget. splitStringAtBlankLines0 t" callApi instruction apiOptions]
  have "settles es" by blast
  then obtain r where "outcome es = Some r"
    using outcome_completes outcome_fails unfolding settles_def by blast
  with es show ?thesis by blast
qed

end
